theory Spec2Isabelle
  imports Main "HOL-Library.Multiset" "HOL-Library.Sublist"
begin

section \<open>Requests\<close>

text \<open>
  \<^verbatim>\<open>enum class OpType { GET, SET, DEL };\<close> and
  \<^verbatim>\<open>struct Request { OpType type; std::string key; std::string value; };\<close>
  The fields carry an \<open>r\<close> prefix.
\<close>

datatype OpType = GET | SET | DEL

record Request =
  rtype :: OpType
  rkey :: string
  rvalue :: string

section \<open>Shard\<close>

text \<open>
  A \<^verbatim>\<open>Shard\<close> owns an \<^verbatim>\<open>unordered_map<string, string>\<close> and a
  \<^verbatim>\<open>shared_mutex\<close>. Every method body runs under that mutex from its first to its
  last statement, so each method is one atomic transition of the shard; the mutex itself
  has no further field in the model.
\<close>

record Shard =
  data :: "string \<rightharpoonup> string"

definition Shard_get :: "Shard \<Rightarrow> string \<Rightarrow> string option" where
  "Shard_get s key = (case data s key of None \<Rightarrow> None | Some v \<Rightarrow> Some v)"

definition Shard_set :: "Shard \<Rightarrow> string \<Rightarrow> string \<Rightarrow> Shard" where
  "Shard_set s key v = s\<lparr>data := (data s)(key \<mapsto> v)\<rparr>"

definition Shard_del :: "Shard \<Rightarrow> string \<Rightarrow> Shard" where
  "Shard_del s key = s\<lparr>data := (data s)(key := None)\<rparr>"

section \<open>KVStore\<close>

text \<open>
  \<^verbatim>\<open>std::hash<std::string>\<close> belongs to the standard library and its values are
  implementation-defined, so the hash is a parameter \<open>h\<close> of every store operation.
  \<^verbatim>\<open>KVStore::shard\<close> computes \<^verbatim>\<open>hash(key) % shards.size()\<close>; with an empty
  vector the modulus is zero, which is undefined in C++ and an error of the model.
  \<^verbatim>\<open>std::thread::join\<close> on a thread that is not joinable throws
  \<^verbatim>\<open>std::system_error\<close>.
\<close>

datatype error = DivisionByZero | SystemError

record KVStore =
  shards :: "Shard list"

definition KVStore_new :: "nat \<Rightarrow> KVStore" where
  "KVStore_new shardCount = \<lparr>shards = replicate shardCount \<lparr>data = Map.empty\<rparr>\<rparr>"

definition KVStore_shard :: "(string \<Rightarrow> nat) \<Rightarrow> KVStore \<Rightarrow> string \<Rightarrow> error + nat" where
  "KVStore_shard h kv key =
     (if length (shards kv) = 0 then Inl DivisionByZero
      else Inr (h key mod length (shards kv)))"

definition KVStore_get :: "(string \<Rightarrow> nat) \<Rightarrow> KVStore \<Rightarrow> string \<Rightarrow> error + string option" where
  "KVStore_get h kv key =
     (case KVStore_shard h kv key of
        Inl e \<Rightarrow> Inl e
      | Inr i \<Rightarrow> Inr (Shard_get (shards kv ! i) key))"

definition KVStore_set :: "(string \<Rightarrow> nat) \<Rightarrow> KVStore \<Rightarrow> string \<Rightarrow> string \<Rightarrow> error + KVStore" where
  "KVStore_set h kv key v =
     (case KVStore_shard h kv key of
        Inl e \<Rightarrow> Inl e
      | Inr i \<Rightarrow> Inr (kv\<lparr>shards := (shards kv)[i := Shard_set (shards kv ! i) key v]\<rparr>))"

definition KVStore_del :: "(string \<Rightarrow> nat) \<Rightarrow> KVStore \<Rightarrow> string \<Rightarrow> error + KVStore" where
  "KVStore_del h kv key =
     (case KVStore_shard h kv key of
        Inl e \<Rightarrow> Inl e
      | Inr i \<Rightarrow> Inr (kv\<lparr>shards := (shards kv)[i := Shard_del (shards kv ! i) key]\<rparr>))"

text \<open>
  The \<^verbatim>\<open>switch\<close> of \<^verbatim>\<open>ThreadPool::workerLoop\<close>: one store operation per request.
  A GET yields the optional value that the worker prints, SET and DEL yield nothing.
\<close>

datatype reply = Got "string option" | Done

definition process :: "(string \<Rightarrow> nat) \<Rightarrow> Request \<Rightarrow> KVStore \<Rightarrow> error + (reply \<times> KVStore)" where
  "process h req kv =
     (case rtype req of
        GET \<Rightarrow> (case KVStore_get h kv (rkey req) of
                  Inl e \<Rightarrow> Inl e
                | Inr val \<Rightarrow> Inr (Got val, kv))
      | SET \<Rightarrow> (case KVStore_set h kv (rkey req) (rvalue req) of
                  Inl e \<Rightarrow> Inl e
                | Inr kv' \<Rightarrow> Inr (Done, kv'))
      | DEL \<Rightarrow> (case KVStore_del h kv (rkey req) of
                  Inl e \<Rightarrow> Inl e
                | Inr kv' \<Rightarrow> Inr (Done, kv')))"

text \<open>A sequence of requests applied one after the other by a single thread.\<close>

fun process_all :: "(string \<Rightarrow> nat) \<Rightarrow> Request list \<Rightarrow> KVStore \<Rightarrow> error + (reply list \<times> KVStore)" where
  "process_all h [] kv = Inr ([], kv)"
| "process_all h (req # reqs) kv =
     (case process h req kv of
        Inl e \<Rightarrow> Inl e
      | Inr (rep, kv') \<Rightarrow>
          (case process_all h reqs kv' of
             Inl e \<Rightarrow> Inl e
           | Inr (reps, kv'') \<Rightarrow> Inr (rep # reps, kv'')))"

subsection \<open>The flat map the store is compared with\<close>

text \<open>
  The reference point of the sharding: one key-to-value map, with \<open>get\<close> a lookup,
  \<open>set\<close> an insert-or-overwrite and \<open>delete\<close> a removal.
\<close>

definition flat_process :: "Request \<Rightarrow> (string \<rightharpoonup> string) \<Rightarrow> reply \<times> (string \<rightharpoonup> string)" where
  "flat_process req m =
     (case rtype req of
        GET \<Rightarrow> (Got (m (rkey req)), m)
      | SET \<Rightarrow> (Done, m(rkey req \<mapsto> rvalue req))
      | DEL \<Rightarrow> (Done, m(rkey req := None)))"

fun flat_process_all :: "Request list \<Rightarrow> (string \<rightharpoonup> string) \<Rightarrow> reply list \<times> (string \<rightharpoonup> string)" where
  "flat_process_all [] m = ([], m)"
| "flat_process_all (req # reqs) m =
     (case flat_process req m of
        (rep, m') \<Rightarrow> (case flat_process_all reqs m' of (reps, m'') \<Rightarrow> (rep # reps, m'')))"

text \<open>
  A store represents a flat map when every shard holds exactly the entries of the map
  whose keys hash to its index.
\<close>

definition represents :: "(string \<Rightarrow> nat) \<Rightarrow> KVStore \<Rightarrow> (string \<rightharpoonup> string) \<Rightarrow> bool" where
  "represents h kv m \<longleftrightarrow>
     (\<forall>i < length (shards kv). \<forall>k.
        data (shards kv ! i) k = (if h k mod length (shards kv) = i then m k else None))"

text \<open>What the store answers for each key: the entry of the shard the key is routed to.\<close>

definition flat_of :: "(string \<Rightarrow> nat) \<Rightarrow> KVStore \<Rightarrow> (string \<rightharpoonup> string)" where
  "flat_of h kv = (\<lambda>k. data (shards kv ! (h k mod length (shards kv))) k)"

section \<open>BlockingQueue\<close>

text \<open>
  \<^verbatim>\<open>std::queue<T> q\<close> and \<^verbatim>\<open>bool stopped = false\<close>; the mutex and the condition
  variable are the atomicity and the blocking of the three methods. \<^verbatim>\<open>pop\<close> has three
  outcomes: the predicate of \<^verbatim>\<open>cv.wait\<close> is false and the caller stays blocked
  (\<open>Waiting\<close>), it returns \<^verbatim>\<open>false\<close> (\<open>StreamEnd\<close>), or it returns \<^verbatim>\<open>true\<close>
  with the front item and the shortened queue (\<open>Item\<close>).
\<close>

record 'a BlockingQueue =
  q :: "'a list"
  stopped :: bool

definition BlockingQueue_new :: "'a BlockingQueue" where
  "BlockingQueue_new = \<lparr>q = [], stopped = False\<rparr>"

definition push :: "'a \<Rightarrow> 'a BlockingQueue \<Rightarrow> 'a BlockingQueue" where
  "push item b = b\<lparr>q := q b @ [item]\<rparr>"

datatype 'a popped = Waiting | StreamEnd | Item 'a "'a BlockingQueue"

definition pop :: "'a BlockingQueue \<Rightarrow> 'a popped" where
  "pop b =
     (if \<not> (stopped b \<or> q b \<noteq> []) then Waiting
      else if stopped b \<and> q b = [] then StreamEnd
      else Item (hd (q b)) (b\<lparr>q := tl (q b)\<rparr>))"

definition shutdown :: "'a BlockingQueue \<Rightarrow> 'a BlockingQueue" where
  "shutdown b = b\<lparr>stopped := True\<rparr>"

subsection \<open>Histories of queue calls\<close>

text \<open>
  The calls that complete on one queue, in the order in which they hold the mutex, and
  what each of them returns. A \<open>Pop\<close> that would still be waiting has not completed, so
  a history that places one there is not a history of the queue (\<open>None\<close>).
\<close>

datatype 'a qcall = Push 'a | Pop | Shutdown

datatype 'a qevent = Pushed | Delivered 'a | Ended | Stopped

fun qrun :: "'a qcall list \<Rightarrow> 'a BlockingQueue \<Rightarrow> ('a qevent list \<times> 'a BlockingQueue) option" where
  "qrun [] b = Some ([], b)"
| "qrun (Push x # cs) b =
     (case qrun cs (push x b) of
        None \<Rightarrow> None
      | Some (evs, b') \<Rightarrow> Some (Pushed # evs, b'))"
| "qrun (Pop # cs) b =
     (case pop b of
        Waiting \<Rightarrow> None
      | StreamEnd \<Rightarrow>
          (case qrun cs b of
             None \<Rightarrow> None
           | Some (evs, b') \<Rightarrow> Some (Ended # evs, b'))
      | Item x b1 \<Rightarrow>
          (case qrun cs b1 of
             None \<Rightarrow> None
           | Some (evs, b') \<Rightarrow> Some (Delivered x # evs, b')))"
| "qrun (Shutdown # cs) b =
     (case qrun cs (shutdown b) of
        None \<Rightarrow> None
      | Some (evs, b') \<Rightarrow> Some (Stopped # evs, b'))"

fun pushed :: "'a qcall list \<Rightarrow> 'a list" where
  "pushed [] = []"
| "pushed (Push x # cs) = x # pushed cs"
| "pushed (Pop # cs) = pushed cs"
| "pushed (Shutdown # cs) = pushed cs"

fun delivered :: "'a qevent list \<Rightarrow> 'a list" where
  "delivered [] = []"
| "delivered (Delivered x # evs) = x # delivered evs"
| "delivered (Pushed # evs) = delivered evs"
| "delivered (Ended # evs) = delivered evs"
| "delivered (Stopped # evs) = delivered evs"

section \<open>ThreadPool\<close>

text \<open>
  The pool is run as a transition system. Its threads are the caller (the thread of
  \<^verbatim>\<open>main\<close>, which calls \<^verbatim>\<open>submit\<close> and \<^verbatim>\<open>shutdown\<close>) and the workers, each in
  \<^verbatim>\<open>workerLoop\<close>. A transition is one critical section: a queue method, a store
  operation, or one \<^verbatim>\<open>join\<close>. The program has no data race (every shared access is
  under a mutex), so its executions are the interleavings of these transitions.

  A worker is \<open>Running\<close> when it is about to call \<^verbatim>\<open>queue.pop\<close>, \<open>Processing req\<close>
  when it has dequeued \<open>req\<close> and not yet applied it, and \<open>Terminated\<close> when
  \<^verbatim>\<open>pop\<close> has returned \<^verbatim>\<open>false\<close>. \<open>joinable\<close> is the state of its
  \<^verbatim>\<open>std::thread\<close> object.

  The caller executes the calls of \<open>todo\<close> in order. Inside \<^verbatim>\<open>ThreadPool::shutdown\<close>
  it is \<open>Joining i\<close>: it has called \<^verbatim>\<open>queue.shutdown()\<close> and joined the workers below
  \<open>i\<close>. \<open>applied\<close> is the history of the requests whose store operation has been
  executed, in that order.
\<close>

datatype wstatus = Running | Processing Request | Terminated

record thread =
  status :: wstatus
  joinable :: bool

datatype call = Submit Request | ShutdownPool

datatype caller = Idle | Joining nat

record ThreadPool =
  queue :: "Request BlockingQueue"
  workers :: "thread list"
  kv :: KVStore
  todo :: "call list"
  caller :: caller
  applied :: "Request list"

definition ThreadPool_new :: "nat \<Rightarrow> KVStore \<Rightarrow> call list \<Rightarrow> ThreadPool" where
  "ThreadPool_new numThreads store calls =
     \<lparr>queue = BlockingQueue_new,
      workers = replicate numThreads \<lparr>status = Running, joinable = True\<rparr>,
      kv = store, todo = calls, caller = Idle, applied = []\<rparr>"

datatype 'a step = Blocked | Raised error | Next 'a

definition set_status :: "nat \<Rightarrow> wstatus \<Rightarrow> thread list \<Rightarrow> thread list" where
  "set_status i st ws = ws[i := (ws ! i)\<lparr>status := st\<rparr>]"

text \<open>
  One transition of worker \<open>i\<close> in \<^verbatim>\<open>workerLoop\<close>. A running worker calls
  \<^verbatim>\<open>queue.pop(req)\<close>: it stays blocked, leaves the loop, or holds the dequeued request.
  A worker that holds a request executes the \<^verbatim>\<open>switch\<close> on it and is running again;
  a store operation that fails ends the execution. The line written to
  \<^verbatim>\<open>std::cout\<close> is not part of the state.
\<close>

definition workerLoop :: "(string \<Rightarrow> nat) \<Rightarrow> nat \<Rightarrow> ThreadPool \<Rightarrow> ThreadPool step" where
  "workerLoop h i s =
     (if length (workers s) \<le> i then Blocked
      else case status (workers s ! i) of
        Running \<Rightarrow>
          (case pop (queue s) of
             Waiting \<Rightarrow> Blocked
           | StreamEnd \<Rightarrow> Next (s\<lparr>workers := set_status i Terminated (workers s)\<rparr>)
           | Item req b \<Rightarrow>
               Next (s\<lparr>queue := b, workers := set_status i (Processing req) (workers s)\<rparr>))
      | Processing req \<Rightarrow>
          (case process h req (kv s) of
             Inl e \<Rightarrow> Raised e
           | Inr (rep, kv') \<Rightarrow>
               Next (s\<lparr>kv := kv', workers := set_status i Running (workers s),
                       applied := applied s @ [req]\<rparr>))
      | Terminated \<Rightarrow> Blocked)"

text \<open>
  One transition of the caller. \<^verbatim>\<open>submit(req)\<close> is \<^verbatim>\<open>queue.push(req)\<close>.
  \<^verbatim>\<open>shutdown()\<close> is \<^verbatim>\<open>queue.shutdown()\<close>, then \<^verbatim>\<open>t.join()\<close> for each worker
  in index order, then the return. A \<^verbatim>\<open>join\<close> waits until the worker has terminated
  and leaves its thread not joinable; on a thread that is not joinable it throws.
\<close>

definition caller_step :: "ThreadPool \<Rightarrow> ThreadPool step" where
  "caller_step s =
     (case caller s of
        Idle \<Rightarrow>
          (case todo s of
             [] \<Rightarrow> Blocked
           | Submit req # rest \<Rightarrow> Next (s\<lparr>queue := push req (queue s), todo := rest\<rparr>)
           | ShutdownPool # rest \<Rightarrow>
               Next (s\<lparr>queue := shutdown (queue s), todo := rest, caller := Joining 0\<rparr>))
      | Joining i \<Rightarrow>
          (if i < length (workers s) then
             (if \<not> joinable (workers s ! i) then Raised SystemError
              else if status (workers s ! i) = Terminated then
                Next (s\<lparr>workers := (workers s)[i := (workers s ! i)\<lparr>joinable := False\<rparr>],
                        caller := Joining (Suc i)\<rparr>)
              else Blocked)
           else Next (s\<lparr>caller := Idle\<rparr>)))"

datatype tid = Main | Worker nat

fun fire :: "(string \<Rightarrow> nat) \<Rightarrow> tid \<Rightarrow> ThreadPool \<Rightarrow> ThreadPool step" where
  "fire h Main s = caller_step s"
| "fire h (Worker i) s = workerLoop h i s"

text \<open>A schedule names the thread that takes each transition.\<close>

fun run :: "(string \<Rightarrow> nat) \<Rightarrow> tid list \<Rightarrow> ThreadPool \<Rightarrow> ThreadPool step" where
  "run h [] s = Next s"
| "run h (t # ts) s =
     (case fire h t s of
        Blocked \<Rightarrow> Blocked
      | Raised e \<Rightarrow> Raised e
      | Next s' \<Rightarrow> run h ts s')"

text \<open>The requests that workers hold between dequeuing and applying them.\<close>

fun in_flight :: "thread list \<Rightarrow> Request list" where
  "in_flight [] = []"
| "in_flight (t # ts) =
     (case status t of Processing req \<Rightarrow> req # in_flight ts | _ \<Rightarrow> in_flight ts)"

fun submits :: "call list \<Rightarrow> Request list" where
  "submits [] = []"
| "submits (Submit req # cs) = req # submits cs"
| "submits (ShutdownPool # cs) = submits cs"

definition finished :: "ThreadPool \<Rightarrow> bool" where
  "finished s \<longleftrightarrow> todo s = [] \<and> caller s = Idle"

subsection \<open>The reference program\<close>

text \<open>\<^verbatim>\<open>main\<close>: four shards, two workers, six submissions, then \<^verbatim>\<open>pool.shutdown()\<close>.\<close>

definition main_requests :: "Request list" where
  "main_requests =
     [\<lparr>rtype = SET, rkey = ''a'', rvalue = ''1''\<rparr>,
      \<lparr>rtype = SET, rkey = ''b'', rvalue = ''2''\<rparr>,
      \<lparr>rtype = GET, rkey = ''a'', rvalue = ''''\<rparr>,
      \<lparr>rtype = DEL, rkey = ''a'', rvalue = ''''\<rparr>,
      \<lparr>rtype = GET, rkey = ''a'', rvalue = ''''\<rparr>,
      \<lparr>rtype = GET, rkey = ''b'', rvalue = ''''\<rparr>]"

definition main_pool :: ThreadPool where
  "main_pool = ThreadPool_new 2 (KVStore_new 4) (map Submit main_requests @ [ShutdownPool])"

text \<open>A hash to run the program with: the sum of the bytes of the key.\<close>

definition byte_sum :: "string \<Rightarrow> nat" where
  "byte_sum key = sum_list (map of_char key)"

text \<open>
  Two schedules of the reference program. In the first, worker 0 dequeues and applies
  all six requests in order. In the second, worker 0 dequeues \<^verbatim>\<open>SET a 1\<close> and is then
  not scheduled until worker 1 has dequeued and applied the other five requests.
\<close>

definition orderly_schedule :: "tid list" where
  "orderly_schedule =
     [Main, Main, Main, Main, Main, Main,
      Worker 0, Worker 0, Worker 0, Worker 0, Worker 0, Worker 0,
      Worker 0, Worker 0, Worker 0, Worker 0, Worker 0, Worker 0,
      Main, Worker 0, Worker 1, Main, Main, Main]"

definition racy_schedule :: "tid list" where
  "racy_schedule =
     [Main, Main, Main, Main, Main, Main,
      Worker 0,
      Worker 1, Worker 1, Worker 1, Worker 1, Worker 1,
      Worker 1, Worker 1, Worker 1, Worker 1, Worker 1,
      Worker 0,
      Main, Worker 0, Worker 1, Main, Main, Main]"

text \<open>
  A program whose requests all have the empty key, and a schedule of it in which worker 0
  dequeues and applies both.
\<close>

definition empty_key_requests :: "Request list" where
  "empty_key_requests =
     [\<lparr>rtype = SET, rkey = '''', rvalue = ''x''\<rparr>,
      \<lparr>rtype = GET, rkey = '''', rvalue = ''''\<rparr>]"

definition empty_key_pool :: ThreadPool where
  "empty_key_pool =
     ThreadPool_new 2 (KVStore_new 4) (map Submit empty_key_requests @ [ShutdownPool])"

definition empty_key_schedule :: "tid list" where
  "empty_key_schedule =
     [Main, Main, Worker 0, Worker 0, Worker 0, Worker 0,
      Main, Worker 0, Worker 1, Main, Main, Main]"

text \<open>
  The transitions a pool still has to take: three per call of \<^verbatim>\<open>submit\<close> not yet made
  (push, dequeue, apply), two per queued request, one per request a worker holds, two per
  call of \<^verbatim>\<open>shutdown\<close> not yet made (stop, return) and one if the caller is inside it,
  and per worker one for its termination and one for its join.
\<close>

definition weight :: "thread \<Rightarrow> nat" where
  "weight w =
     (case status w of Running \<Rightarrow> 1 | Processing req \<Rightarrow> 2 | Terminated \<Rightarrow> 0)
     + (if joinable w then 1 else 0)"

fun call_work :: "call \<Rightarrow> nat" where
  "call_work (Submit req) = 3"
| "call_work ShutdownPool = 2"

definition work :: "ThreadPool \<Rightarrow> nat" where
  "work s =
     sum_list (map call_work (todo s)) + 2 * length (q (queue s))
     + sum_list (map weight (workers s))
     + (case caller s of Idle \<Rightarrow> 0 | Joining j \<Rightarrow> 1)"

text \<open>
  Before the queue is stopped every worker thread is joinable, and while the caller is
  joining, the workers it has not reached yet are.
\<close>

definition fresh :: "ThreadPool \<Rightarrow> bool" where
  "fresh s \<longleftrightarrow>
     (case caller s of
        Idle \<Rightarrow> \<not> stopped (queue s) \<longrightarrow> (\<forall>w \<in> set (workers s). joinable w)
      | Joining j \<Rightarrow> (\<forall>i. j \<le> i \<and> i < length (workers s) \<longrightarrow> joinable (workers s ! i)))"

text \<open>The request a worker holds, as a multiset.\<close>

definition held :: "thread \<Rightarrow> Request multiset" where
  "held w = (case status w of Processing req \<Rightarrow> {#req#} | _ \<Rightarrow> {#})"

text \<open>Observations of the outcome of a run.\<close>

definition map_step :: "('a \<Rightarrow> 'b) \<Rightarrow> 'a step \<Rightarrow> 'b step" where
  "map_step f r = (case r of Blocked \<Rightarrow> Blocked | Raised e \<Rightarrow> Raised e | Next s \<Rightarrow> Next (f s))"

definition final_get :: "(string \<Rightarrow> nat) \<Rightarrow> string \<Rightarrow> ThreadPool \<Rightarrow> error + string option" where
  "final_get h key s = KVStore_get h (kv s) key"

text \<open>
  The discipline of \<^verbatim>\<open>ThreadPool::shutdown\<close>: while the caller is joining, the queue is
  stopped and the workers it has passed are terminated and joined; once the queue is
  stopped and the caller is back, every worker is.
\<close>

definition joined :: "ThreadPool \<Rightarrow> bool" where
  "joined s \<longleftrightarrow>
     (case caller s of
        Idle \<Rightarrow>
          stopped (queue s) \<longrightarrow>
            (\<forall>w \<in> set (workers s). status w = Terminated \<and> \<not> joinable w)
      | Joining j \<Rightarrow>
          stopped (queue s) \<and> j \<le> length (workers s) \<and>
          (\<forall>i < j. status (workers s ! i) = Terminated \<and> \<not> joinable (workers s ! i)))"

text \<open>
  The invariant of a program that submits the requests \<open>reqs\<close> and then shuts the pool
  down once: nothing is pushed after the stop, a terminated worker has seen the queue
  stopped and empty, every request is in exactly one place (not yet submitted, queued,
  held by a worker, applied), and the store is the flat map after the applied requests.
\<close>

definition draining :: "(string \<Rightarrow> nat) \<Rightarrow> Request list \<Rightarrow> ThreadPool \<Rightarrow> bool" where
  "draining h reqs s \<longleftrightarrow>
     0 < length (shards (kv s))
     \<and> (todo s = [] \<longrightarrow> stopped (queue s))
     \<and> (todo s \<noteq> [] \<longrightarrow>
          \<not> stopped (queue s) \<and> caller s = Idle
          \<and> todo s = map Submit (submits (todo s)) @ [ShutdownPool])
     \<and> ((\<exists>w \<in> set (workers s). status w = Terminated) \<longrightarrow>
          stopped (queue s) \<and> q (queue s) = [])
     \<and> mset (submits (todo s)) + mset (q (queue s)) + mset (in_flight (workers s))
          + mset (applied s) = mset reqs
     \<and> flat_of h (kv s) = snd (flat_process_all (applied s) Map.empty)"

section \<open>The store as a flat map\<close>


lemma get_flat_of:
  "0 < length (shards st) \<Longrightarrow> KVStore_get h st k = Inr (flat_of h st k)"
  by (simp add: KVStore_get_def KVStore_shard_def Shard_get_def flat_of_def split: option.splits)

lemma set_flat_of:
  assumes "0 < length (shards st)"
  shows "\<exists>st'. KVStore_set h st k v = Inr st' \<and> flat_of h st' = (flat_of h st)(k \<mapsto> v)
           \<and> length (shards st') = length (shards st)"
proof -
  let ?n = "length (shards st)"
  let ?st = "st\<lparr>shards := (shards st)[h k mod ?n := Shard_set (shards st ! (h k mod ?n)) k v]\<rparr>"
  have eq: "KVStore_set h st k v = Inr ?st"
    using assms by (simp add: KVStore_set_def KVStore_shard_def)
  have "flat_of h ?st k' = ((flat_of h st)(k \<mapsto> v)) k'" for k'
    using assms by (simp add: flat_of_def nth_list_update Shard_set_def)
  then have "flat_of h ?st = (flat_of h st)(k \<mapsto> v)" by blast
  with eq show ?thesis by simp
qed

lemma del_flat_of:
  assumes "0 < length (shards st)"
  shows "\<exists>st'. KVStore_del h st k = Inr st' \<and> flat_of h st' = (flat_of h st)(k := None)
           \<and> length (shards st') = length (shards st)"
proof -
  let ?n = "length (shards st)"
  let ?st = "st\<lparr>shards := (shards st)[h k mod ?n := Shard_del (shards st ! (h k mod ?n)) k]\<rparr>"
  have eq: "KVStore_del h st k = Inr ?st"
    using assms by (simp add: KVStore_del_def KVStore_shard_def)
  have "flat_of h ?st k' = ((flat_of h st)(k := None)) k'" for k'
    using assms by (simp add: flat_of_def nth_list_update Shard_del_def)
  then have "flat_of h ?st = (flat_of h st)(k := None)" by blast
  with eq show ?thesis by simp
qed

lemma process_flat_of:
  assumes "0 < length (shards st)"
  shows "\<exists>st'. process h req st = Inr (fst (flat_process req (flat_of h st)), st')
           \<and> flat_of h st' = snd (flat_process req (flat_of h st))
           \<and> length (shards st') = length (shards st)"
proof (cases "rtype req")
  case GET
  then show ?thesis
    using assms by (simp add: process_def flat_process_def get_flat_of)
next
  case SET
  from set_flat_of [OF assms, of h "rkey req" "rvalue req"]
  show ?thesis using SET by (auto simp: process_def flat_process_def)
next
  case DEL
  from del_flat_of [OF assms, of h "rkey req"]
  show ?thesis using DEL by (auto simp: process_def flat_process_def)
qed

lemma process_all_flat_of:
  "0 < length (shards st) \<Longrightarrow>
   \<exists>st'. process_all h reqs st = Inr (fst (flat_process_all reqs (flat_of h st)), st')
      \<and> flat_of h st' = snd (flat_process_all reqs (flat_of h st))
      \<and> length (shards st') = length (shards st)"
proof (induction reqs arbitrary: st)
  case Nil
  then show ?case by simp
next
  case (Cons req reqs)
  from process_flat_of [OF Cons.prems, of h req]
  obtain st1 where p: "process h req st = Inr (fst (flat_process req (flat_of h st)), st1)"
    and r: "flat_of h st1 = snd (flat_process req (flat_of h st))"
    and l: "length (shards st1) = length (shards st)" by blast
  from Cons.IH [of st1] l Cons.prems
  obtain st2 where
    pa: "process_all h reqs st1 = Inr (fst (flat_process_all reqs (flat_of h st1)), st2)"
    and r2: "flat_of h st2 = snd (flat_process_all reqs (flat_of h st1))"
    and l2: "length (shards st2) = length (shards st1)" by auto
  show ?case
    using p pa r2 l2 l r by (simp add: split_beta)
qed

text \<open>Requests that leave the entry of a key alone.\<close>

lemma flat_process_other:
  "rkey req \<noteq> k \<or> rtype req = GET \<Longrightarrow> snd (flat_process req m) k = m k"
  by (cases "rtype req") (auto simp: flat_process_def)

lemma flat_process_all_other:
  "\<forall>req \<in> set reqs. rkey req \<noteq> k \<or> rtype req = GET \<Longrightarrow>
   snd (flat_process_all reqs m) k = m k"
proof (induction reqs arbitrary: m)
  case Nil
  then show ?case by simp
next
  case (Cons req reqs)
  have "snd (flat_process_all (req # reqs) m) k
          = snd (flat_process_all reqs (snd (flat_process req m))) k"
    by (simp add: split_beta)
  also have "\<dots> = snd (flat_process req m) k"
    using Cons by simp
  also have "\<dots> = m k"
    using Cons.prems by (simp add: flat_process_other)
  finally show ?case .
qed

section \<open>Shard and store operations\<close>

text \<open>
  C2 (get after set). A \<open>get\<close> that follows \<open>set k v\<close> returns \<open>v\<close>, on a shard and on a
  store with at least one shard, also when requests on other keys and GETs run in
  between. The empty string is stored like any other value: the result is present, not
  absent.
\<close>

theorem get_after_set:
  "Shard_get (Shard_set s k v) k = Some v
   \<and> Shard_get (Shard_set s k []) k \<noteq> None
   \<and> (0 < length (shards st) \<longrightarrow>
        (\<forall>req \<in> set reqs. rkey req \<noteq> k \<or> rtype req = GET) \<longrightarrow>
        (\<exists>st1 reps st2. KVStore_set h st k v = Inr st1
            \<and> process_all h reqs st1 = Inr (reps, st2)
            \<and> KVStore_get h st2 k = Inr (Some v)))"
proof (intro conjI impI)
  show "Shard_get (Shard_set s k v) k = Some v"
    by (simp add: Shard_get_def Shard_set_def)
  show "Shard_get (Shard_set s k []) k \<noteq> None"
    by (simp add: Shard_get_def Shard_set_def)
next
  assume n: "0 < length (shards st)"
    and other: "\<forall>req \<in> set reqs. rkey req \<noteq> k \<or> rtype req = GET"
  from set_flat_of [OF n, of h k v]
  obtain st1 where s1: "KVStore_set h st k v = Inr st1"
    and f1: "flat_of h st1 = (flat_of h st)(k \<mapsto> v)"
    and l1: "length (shards st1) = length (shards st)" by blast
  from process_all_flat_of [of st1 h reqs] l1 n
  obtain st2 where p: "process_all h reqs st1 = Inr (fst (flat_process_all reqs (flat_of h st1)), st2)"
    and f2: "flat_of h st2 = snd (flat_process_all reqs (flat_of h st1))"
    and l2: "length (shards st2) = length (shards st1)" by auto
  have "flat_of h st2 k = Some v"
    using f2 f1 flat_process_all_other [OF other] by simp
  then have "KVStore_get h st2 k = Inr (Some v)"
    using l2 l1 n by (simp add: get_flat_of)
  with s1 p show "\<exists>st1 reps st2. KVStore_set h st k v = Inr st1
            \<and> process_all h reqs st1 = Inr (reps, st2)
            \<and> KVStore_get h st2 k = Inr (Some v)" by blast
qed

theorem get_after_set_witness:
  "0 < length (shards (KVStore_new 4))
   \<and> (\<exists>st1 reps st2. KVStore_set byte_sum (KVStore_new 4) ''a'' '''' = Inr st1
        \<and> process_all byte_sum [\<lparr>rtype = SET, rkey = ''b'', rvalue = ''2''\<rparr>, \<lparr>rtype = GET, rkey = ''a'', rvalue = ''''\<rparr>] st1 = Inr (reps, st2)
        \<and> KVStore_get byte_sum st2 ''a'' = Inr (Some ''''))"
proof -
  have a: "0 < length (shards (KVStore_new 4))" by (simp add: KVStore_new_def)
  have b: "\<forall>req \<in> set [\<lparr>rtype = SET, rkey = ''b'', rvalue = ''2''\<rparr>, \<lparr>rtype = GET, rkey = ''a'', rvalue = ''''\<rparr>].
         rkey req \<noteq> ''a'' \<or> rtype req = GET" by simp
  from get_after_set [where st = "KVStore_new 4" and k = "''a''" and h = byte_sum and v = "''''"
      and reqs = "[\<lparr>rtype = SET, rkey = ''b'', rvalue = ''2''\<rparr>, \<lparr>rtype = GET, rkey = ''a'', rvalue = ''''\<rparr>]"] a b
  show ?thesis by blast
qed

text \<open>
  C3 (delete and absent keys). After \<open>del k\<close> a \<open>get k\<close> returns absent and the other
  keys keep their entries. On an absent key \<open>get\<close> returns absent and \<open>del\<close> leaves the
  shard as it was. Neither operation has an error result. The same holds on a store with
  at least one shard.
\<close>

theorem delete_and_absent:
  "Shard_get (Shard_del s k) k = None
   \<and> (\<forall>k'. k' \<noteq> k \<longrightarrow> Shard_get (Shard_del s k) k' = Shard_get s k')
   \<and> (data s k = None \<longrightarrow> Shard_get s k = None \<and> Shard_del s k = s)
   \<and> (0 < length (shards st) \<longrightarrow>
        (\<exists>st'. KVStore_del h st k = Inr st' \<and> KVStore_get h st' k = Inr None
           \<and> (KVStore_get h st k = Inr None \<longrightarrow> st' = st)))"
proof (intro conjI impI allI)
  show "Shard_get (Shard_del s k) k = None"
    by (simp add: Shard_get_def Shard_del_def)
  show "Shard_get (Shard_del s k) k' = Shard_get s k'" if "k' \<noteq> k" for k'
    using that by (simp add: Shard_get_def Shard_del_def)
  show "Shard_get s k = None" if "data s k = None"
    using that by (simp add: Shard_get_def)
  show "Shard_del s k = s" if "data s k = None"
  proof -
    have "(data s)(k := None) = data s" using that by (simp add: fun_upd_idem)
    then show ?thesis by (simp add: Shard_del_def)
  qed
next
  assume n: "0 < length (shards st)"
  let ?i = "h k mod length (shards st)"
  let ?st = "st\<lparr>shards := (shards st)[?i := Shard_del (shards st ! ?i) k]\<rparr>"
  have eq: "KVStore_del h st k = Inr ?st"
    using n by (simp add: KVStore_del_def KVStore_shard_def)
  have g: "KVStore_get h ?st k = Inr None"
    using n by (simp add: KVStore_get_def KVStore_shard_def Shard_get_def Shard_del_def)
  have same: "?st = st" if "KVStore_get h st k = Inr None"
  proof -
    from that n have "data (shards st ! ?i) k = None"
      by (simp add: KVStore_get_def KVStore_shard_def Shard_get_def split: option.splits)
    then have "(data (shards st ! ?i))(k := None) = data (shards st ! ?i)"
      by (simp add: fun_upd_idem)
    then have "Shard_del (shards st ! ?i) k = shards st ! ?i"
      by (simp add: Shard_del_def)
    then show ?thesis by (simp add: list_update_id)
  qed
  from eq g same
  show "\<exists>st'. KVStore_del h st k = Inr st' \<and> KVStore_get h st' k = Inr None
           \<and> (KVStore_get h st k = Inr None \<longrightarrow> st' = st)" by blast
qed

theorem delete_and_absent_witness:
  "Shard_get \<lparr>data = Map.empty\<rparr> ''a'' = None
   \<and> Shard_del \<lparr>data = Map.empty\<rparr> ''a'' = \<lparr>data = Map.empty\<rparr>
   \<and> Shard_get (Shard_del \<lparr>data = [''b'' \<mapsto> ''2'']\<rparr> ''b'') ''b'' = None
   \<and> KVStore_del byte_sum (KVStore_new 4) ''a'' = Inr (KVStore_new 4)
   \<and> KVStore_get byte_sum (KVStore_new 4) ''a'' = Inr None"
proof -
  have e: "data \<lparr>data = Map.empty\<rparr> ''a'' = None" by simp
  have n: "0 < length (shards (KVStore_new 4))" by (simp add: KVStore_new_def)
  have g: "KVStore_get byte_sum (KVStore_new 4) ''a'' = Inr None"
    by (simp add: KVStore_get_def KVStore_shard_def KVStore_new_def Shard_get_def)
  from delete_and_absent [where s = "\<lparr>data = Map.empty\<rparr>" and k = "''a''"
      and st = "KVStore_new 4" and h = byte_sum] e n g
  have 1: "Shard_get \<lparr>data = Map.empty\<rparr> ''a'' = None
     \<and> Shard_del \<lparr>data = Map.empty\<rparr> ''a'' = \<lparr>data = Map.empty\<rparr>
     \<and> KVStore_del byte_sum (KVStore_new 4) ''a'' = Inr (KVStore_new 4)"
    by auto
  from delete_and_absent [where s = "\<lparr>data = [''b'' \<mapsto> ''2'']\<rparr>" and k = "''b''"]
  have 2: "Shard_get (Shard_del \<lparr>data = [''b'' \<mapsto> ''2'']\<rparr> ''b'') ''b'' = None"
    by blast
  from 1 2 g show ?thesis by blast
qed

section \<open>Sharding\<close>

lemma represents_new: "represents h (KVStore_new n) Map.empty"
  by (simp add: represents_def KVStore_new_def)

lemma represents_flat_of:
  assumes "represents h st m" and "0 < length (shards st)"
  shows "flat_of h st = m"
proof
  fix k
  have "h k mod length (shards st) < length (shards st)" using assms(2) by simp
  with assms(1) show "flat_of h st k = m k"
    unfolding represents_def flat_of_def by simp
qed

lemma represents_set:
  assumes "represents h st m" and "0 < length (shards st)"
    and "KVStore_set h st k v = Inr st'"
  shows "represents h st' (m(k \<mapsto> v))"
proof -
  let ?n = "length (shards st)"
  let ?i = "h k mod ?n"
  have i: "?i < ?n" using assms(2) by simp
  have eq: "st' = st\<lparr>shards := (shards st)[?i := Shard_set (shards st ! ?i) k v]\<rparr>"
    using assms(2,3) by (simp add: KVStore_set_def KVStore_shard_def)
  show ?thesis
    unfolding represents_def
  proof (intro allI impI)
    fix j k'
    assume "j < length (shards st')"
    then have j: "j < ?n" using eq by simp
    with assms(1) have old: "data (shards st ! j) k' = (if h k' mod ?n = j then m k' else None)"
      unfolding represents_def by simp
    show "data (shards st' ! j) k' =
            (if h k' mod length (shards st') = j then (m(k \<mapsto> v)) k' else None)"
      using old j i eq by (auto simp: nth_list_update Shard_set_def)
  qed
qed

lemma represents_del:
  assumes "represents h st m" and "0 < length (shards st)"
    and "KVStore_del h st k = Inr st'"
  shows "represents h st' (m(k := None))"
proof -
  let ?n = "length (shards st)"
  let ?i = "h k mod ?n"
  have i: "?i < ?n" using assms(2) by simp
  have eq: "st' = st\<lparr>shards := (shards st)[?i := Shard_del (shards st ! ?i) k]\<rparr>"
    using assms(2,3) by (simp add: KVStore_del_def KVStore_shard_def)
  show ?thesis
    unfolding represents_def
  proof (intro allI impI)
    fix j k'
    assume "j < length (shards st')"
    then have j: "j < ?n" using eq by simp
    with assms(1) have old: "data (shards st ! j) k' = (if h k' mod ?n = j then m k' else None)"
      unfolding represents_def by simp
    show "data (shards st' ! j) k' =
            (if h k' mod length (shards st') = j then (m(k := None)) k' else None)"
      using old j i eq by (auto simp: nth_list_update Shard_del_def)
  qed
qed

lemma represents_process:
  assumes "represents h st m" and "0 < length (shards st)"
    and "process h req st = Inr (rep, st')"
  shows "represents h st' (snd (flat_process req m))"
proof (cases "rtype req")
  case GET
  then show ?thesis
    using assms by (auto simp: process_def flat_process_def split: sum.splits)
next
  case SET
  then show ?thesis
    using assms represents_set [OF assms(1,2), of "rkey req" "rvalue req" st']
    by (auto simp: process_def flat_process_def split: sum.splits)
next
  case DEL
  then show ?thesis
    using assms represents_del [OF assms(1,2), of "rkey req" st']
    by (auto simp: process_def flat_process_def split: sum.splits)
qed

lemma represents_process_all:
  "represents h st m \<Longrightarrow> 0 < length (shards st) \<Longrightarrow>
   process_all h reqs st = Inr (reps, st') \<Longrightarrow>
   represents h st' (snd (flat_process_all reqs m))"
proof (induction reqs arbitrary: st m reps)
  case Nil
  then show ?case by simp
next
  case (Cons req reqs)
  from process_flat_of [OF Cons.prems(2), of h req]
  obtain st1 where p: "process h req st = Inr (fst (flat_process req (flat_of h st)), st1)"
    and l: "length (shards st1) = length (shards st)" by blast
  have r1: "represents h st1 (snd (flat_process req m))"
    using represents_process [OF Cons.prems(1,2) p] .
  from Cons.prems(3) p obtain reps' where
    pa: "process_all h reqs st1 = Inr (reps', st')"
    by (auto split: sum.splits)
  have "represents h st' (snd (flat_process_all reqs (snd (flat_process req m))))"
    using Cons.IH [OF r1 _ pa] l Cons.prems(2) by simp
  then show ?case by (simp add: split_beta)
qed

text \<open>
  C10 (sharding transparency). For every positive \<open>shardCount\<close>, every hash and every
  sequence of requests applied in order to a new store, the replies are those of the flat
  map, each shard ends with exactly the entries of the final flat map that hash to it,
  and every later \<open>get\<close> answers as the flat map does.
\<close>

theorem sharding_transparent:
  "0 < shardCount \<Longrightarrow>
   \<exists>st'. process_all h reqs (KVStore_new shardCount)
            = Inr (fst (flat_process_all reqs Map.empty), st')
      \<and> represents h st' (snd (flat_process_all reqs Map.empty))
      \<and> (\<forall>k. KVStore_get h st' k = Inr (snd (flat_process_all reqs Map.empty) k))"
proof -
  assume n: "0 < shardCount"
  let ?st = "KVStore_new shardCount"
  have len: "0 < length (shards ?st)" using n by (simp add: KVStore_new_def)
  have f0: "flat_of h ?st = Map.empty"
    using represents_flat_of [OF represents_new len] .
  from process_all_flat_of [OF len, of h reqs] f0
  obtain st' where p: "process_all h reqs ?st = Inr (fst (flat_process_all reqs Map.empty), st')"
    and f: "flat_of h st' = snd (flat_process_all reqs Map.empty)"
    and l: "length (shards st') = length (shards ?st)" by auto
  have r: "represents h st' (snd (flat_process_all reqs Map.empty))"
    using represents_process_all [OF represents_new len p] .
  have g: "KVStore_get h st' k = Inr (snd (flat_process_all reqs Map.empty) k)" for k
    using get_flat_of [of st' h k] l len f by simp
  from p r g show ?thesis by blast
qed

theorem sharding_transparent_witness:
  "\<exists>st'. process_all byte_sum main_requests (KVStore_new 4)
            = Inr ([Done, Done, Got (Some ''1''), Done, Got None, Got (Some ''2'')], st')
      \<and> KVStore_get byte_sum st' ''a'' = Inr None
      \<and> KVStore_get byte_sum st' ''b'' = Inr (Some ''2'')"
proof -
  have r: "fst (flat_process_all main_requests Map.empty)
             = [Done, Done, Got (Some ''1''), Done, Got None, Got (Some ''2'')]"
    by (simp add: main_requests_def flat_process_def)
  have a: "snd (flat_process_all main_requests Map.empty) ''a'' = None"
    by (simp add: main_requests_def flat_process_def)
  have b: "snd (flat_process_all main_requests Map.empty) ''b'' = Some ''2''"
    by (simp add: main_requests_def flat_process_def)
  from sharding_transparent [of 4 byte_sum main_requests]
  obtain st' where "process_all byte_sum main_requests (KVStore_new 4)
            = Inr (fst (flat_process_all main_requests Map.empty), st')"
    and "\<forall>k. KVStore_get byte_sum st' k = Inr (snd (flat_process_all main_requests Map.empty) k)"
    by auto
  with r a b show ?thesis by auto
qed

section \<open>The queue\<close>

lemma pop_cases:
  "pop b = (if q b \<noteq> [] then Item (hd (q b)) (b\<lparr>q := tl (q b)\<rparr>)
            else if stopped b then StreamEnd else Waiting)"
  by (simp add: pop_def)

lemma qrun_conserves:
  "qrun cs b = Some (evs, b') \<Longrightarrow> q b @ pushed cs = delivered evs @ q b'"
proof (induction cs arbitrary: b evs)
  case Nil
  then show ?case by simp
next
  case (Cons c cs)
  show ?case
  proof (cases c)
    case (Push x)
    with Cons.prems obtain evs1 where r: "qrun cs (push x b) = Some (evs1, b')"
      and e: "evs = Pushed # evs1"
      by (auto split: option.splits)
    from Cons.IH [OF r] show ?thesis
      using Push e by (simp add: push_def)
  next
    case Pop
    show ?thesis
    proof (cases "q b")
      case Nil
      with Cons.prems Pop obtain evs1 where r: "qrun cs b = Some (evs1, b')"
        and e: "evs = Ended # evs1"
        by (auto simp: pop_cases split: option.splits if_splits)
      from Cons.IH [OF r] show ?thesis using Pop e by simp
    next
      case (Cons x xs)
      with Cons.prems Pop obtain evs1 where r: "qrun cs (b\<lparr>q := xs\<rparr>) = Some (evs1, b')"
        and e: "evs = Delivered x # evs1"
        by (auto simp: pop_cases split: option.splits)
      from Cons.IH [OF r] show ?thesis using Pop e Cons by simp
    qed
  next
    case Shutdown
    with Cons.prems obtain evs1 where r: "qrun cs (shutdown b) = Some (evs1, b')"
      and e: "evs = Stopped # evs1"
      by (auto split: option.splits)
    from Cons.IH [OF r] show ?thesis
      using Shutdown e by (simp add: shutdown_def)
  qed
qed

lemma qrun_after_end:
  "pop b = StreamEnd \<Longrightarrow> pushed cs = [] \<Longrightarrow>
   \<exists>evs. qrun cs b = Some (evs, b) \<and> set evs \<subseteq> {Ended, Stopped}"
proof (induction cs)
  case Nil
  then show ?case by simp
next
  case (Cons c cs)
  from Cons.prems have st: "stopped b" and em: "q b = []"
    by (auto simp: pop_cases split: if_splits)
  show ?case
  proof (cases c)
    case (Push x)
    with Cons.prems show ?thesis by simp
  next
    case Pop
    with Cons show ?thesis by auto
  next
    case Shutdown
    have "shutdown b = b" using st by (simp add: shutdown_def)
    with Cons Shutdown show ?thesis by auto
  qed
qed

text \<open>
  C5 (FIFO delivery). In every history of calls on a new queue, the items delivered so
  far followed by the items still queued are the items pushed, in push order: the
  \<open>i\<close>-th item a pop returns is the \<open>i\<close>-th item pushed, so of two items that are both
  dequeued the one pushed first is dequeued first.
\<close>

theorem fifo_delivery:
  "qrun cs BlockingQueue_new = Some (evs, b) \<Longrightarrow>
   pushed cs = delivered evs @ q b
   \<and> (\<forall>i < length (delivered evs). delivered evs ! i = pushed cs ! i)"
proof -
  assume r: "qrun cs BlockingQueue_new = Some (evs, b)"
  from qrun_conserves [OF r] have eq: "pushed cs = delivered evs @ q b"
    by (simp add: BlockingQueue_new_def)
  then show ?thesis by (simp add: nth_append)
qed

theorem fifo_delivery_witness:
  "qrun [Push (1::nat), Push 2, Pop, Push 3, Pop] BlockingQueue_new
     = Some ([Pushed, Pushed, Delivered 1, Pushed, Delivered 2], \<lparr>q = [3], stopped = False\<rparr>)
   \<and> pushed [Push (1::nat), Push 2, Pop, Push 3, Pop] = [1, 2] @ [3]"
proof -
  have r: "qrun [Push (1::nat), Push 2, Pop, Push 3, Pop] BlockingQueue_new
     = Some ([Pushed, Pushed, Delivered 1, Pushed, Delivered 2], \<lparr>q = [3], stopped = False\<rparr>)"
    by (simp add: BlockingQueue_new_def push_def pop_def)
  from fifo_delivery [OF r] r show ?thesis by simp
qed

text \<open>
  C4 (stream end). A pop on a non-empty queue returns its head; a pop returns stream-end
  exactly when the queue is stopped and empty; when a pop returns stream-end, every
  item pushed before has been delivered. After a stream-end, the pops that follow return
  stream-end as long as nothing is pushed in between. \<^verbatim>\<open>push\<close> does not look at
  \<^verbatim>\<open>stopped\<close>, so an item pushed after the stream-end is delivered by the next pop:
  that history is the counterexample to the claim without the proviso.
\<close>

theorem stream_end:
  "(q b \<noteq> [] \<longrightarrow> pop b = Item (hd (q b)) (b\<lparr>q := tl (q b)\<rparr>))
   \<and> (pop b = StreamEnd \<longleftrightarrow> stopped b \<and> q b = [])
   \<and> (qrun cs BlockingQueue_new = Some (evs, b) \<longrightarrow> pop b = StreamEnd \<longrightarrow>
        delivered evs = pushed cs)
   \<and> (pop b = StreamEnd \<longrightarrow> pushed cs' = [] \<longrightarrow>
        (\<exists>evs'. qrun cs' b = Some (evs', b) \<and> set evs' \<subseteq> {Ended, Stopped}))"
proof (intro conjI impI)
  show "pop b = Item (hd (q b)) (b\<lparr>q := tl (q b)\<rparr>)" if "q b \<noteq> []"
    using that by (simp add: pop_cases)
  show "pop b = StreamEnd \<longleftrightarrow> stopped b \<and> q b = []"
    by (simp add: pop_cases)
  show "delivered evs = pushed cs"
    if r: "qrun cs BlockingQueue_new = Some (evs, b)" and e: "pop b = StreamEnd"
  proof -
    from e have "q b = []" by (simp add: pop_cases split: if_splits)
    with qrun_conserves [OF r] show ?thesis by (simp add: BlockingQueue_new_def)
  qed
  show "\<exists>evs'. qrun cs' b = Some (evs', b) \<and> set evs' \<subseteq> {Ended, Stopped}"
    if "pop b = StreamEnd" and "pushed cs' = []"
    using that by (rule qrun_after_end)
qed

theorem stream_end_witness:
  "pop \<lparr>q = [1::nat, 2], stopped = True\<rparr> = Item 1 \<lparr>q = [2], stopped = True\<rparr>
   \<and> qrun [Push (1::nat), Shutdown, Pop] BlockingQueue_new
        = Some ([Pushed, Stopped, Delivered 1], \<lparr>q = [], stopped = True\<rparr>)
   \<and> pop \<lparr>q = ([]::nat list), stopped = True\<rparr> = StreamEnd
   \<and> qrun [Pop, Shutdown, Pop] \<lparr>q = ([]::nat list), stopped = True\<rparr>
        = Some ([Ended, Stopped, Ended], \<lparr>q = [], stopped = True\<rparr>)"
proof -
  let ?b = "\<lparr>q = ([]::nat list), stopped = True\<rparr>"
  have r: "qrun [Push (1::nat), Shutdown, Pop] BlockingQueue_new
        = Some ([Pushed, Stopped, Delivered 1], ?b)"
    by (simp add: BlockingQueue_new_def push_def pop_def shutdown_def)
  have e: "pop ?b = StreamEnd" by (simp add: pop_def)
  have p: "pushed [Pop, Shutdown, Pop :: nat qcall] = []" by simp
  have ne: "q \<lparr>q = [1::nat, 2], stopped = True\<rparr> \<noteq> []" by simp
  from stream_end [where b = "\<lparr>q = [1::nat, 2], stopped = True\<rparr>"] ne
  have 1: "pop \<lparr>q = [1::nat, 2], stopped = True\<rparr> = Item 1 \<lparr>q = [2], stopped = True\<rparr>"
    by simp
  from stream_end [where b = ?b and cs = "[Push (1::nat), Shutdown, Pop]"
      and evs = "[Pushed, Stopped, Delivered 1]" and cs' = "[Pop, Shutdown, Pop]"] r e p
  have 2: "delivered [Pushed, Stopped, Delivered (1::nat)] = pushed [Push (1::nat), Shutdown, Pop]"
    and "\<exists>evs'. qrun [Pop, Shutdown, Pop] ?b = Some (evs', ?b) \<and> set evs' \<subseteq> {Ended, Stopped}"
    by blast+
  then have 3: "qrun [Pop, Shutdown, Pop] ?b = Some ([Ended, Stopped, Ended], ?b)"
    by (simp add: pop_def shutdown_def)
  from 1 r e 3 show ?thesis by blast
qed

theorem stream_end_counterexample:
  "qrun [Shutdown, Pop, Push (1::nat), Pop] BlockingQueue_new
     = Some ([Stopped, Ended, Pushed, Delivered 1], \<lparr>q = [], stopped = True\<rparr>)"
  by (simp add: BlockingQueue_new_def push_def pop_def shutdown_def)

section \<open>Transitions of the pool\<close>


lemma caller_stepE [consumes 1, case_names Submit Shutdown Join Return]:
  assumes "caller_step s = Next s'"
  obtains
    (Submit) req rest where "caller s = Idle" "todo s = Submit req # rest"
      "s' = s\<lparr>queue := push req (queue s), todo := rest\<rparr>"
  | (Shutdown) rest where "caller s = Idle" "todo s = ShutdownPool # rest"
      "s' = s\<lparr>queue := shutdown (queue s), todo := rest, caller := Joining 0\<rparr>"
  | (Join) i where "caller s = Joining i" "i < length (workers s)"
      "joinable (workers s ! i)" "status (workers s ! i) = Terminated"
      "s' = s\<lparr>workers := (workers s)[i := (workers s ! i)\<lparr>joinable := False\<rparr>],
              caller := Joining (Suc i)\<rparr>"
  | (Return) i where "caller s = Joining i" "length (workers s) \<le> i" "s' = s\<lparr>caller := Idle\<rparr>"
  using assms unfolding caller_step_def
  by (auto split: caller.splits list.splits call.splits if_splits)

lemma workerLoopE [consumes 1, case_names Terminate Dequeue Apply]:
  assumes "workerLoop h i s = Next s'"
  obtains
    (Terminate) "i < length (workers s)" "status (workers s ! i) = Running"
      "stopped (queue s)" "q (queue s) = []"
      "s' = s\<lparr>workers := set_status i Terminated (workers s)\<rparr>"
  | (Dequeue) req xs where "i < length (workers s)" "status (workers s ! i) = Running"
      "q (queue s) = req # xs"
      "s' = s\<lparr>queue := (queue s)\<lparr>q := xs\<rparr>,
              workers := set_status i (Processing req) (workers s)\<rparr>"
  | (Apply) req rep st' where "i < length (workers s)"
      "status (workers s ! i) = Processing req" "process h req (kv s) = Inr (rep, st')"
      "s' = s\<lparr>kv := st', workers := set_status i Running (workers s),
              applied := applied s @ [req]\<rparr>"
proof -
  from assms have i: "i < length (workers s)"
    unfolding workerLoop_def by (auto split: if_splits)
  show thesis
  proof (cases "status (workers s ! i)")
    case Running
    show thesis
    proof (cases "q (queue s)")
      case Nil
      with assms i Running have a: "stopped (queue s)"
        and b: "s' = s\<lparr>workers := set_status i Terminated (workers s)\<rparr>"
        unfolding workerLoop_def by (auto simp: pop_cases split: if_splits)
      show thesis by (rule Terminate [OF i Running a Nil b])
    next
      case (Cons req xs)
      with assms i Running
      have b: "s' = s\<lparr>queue := (queue s)\<lparr>q := xs\<rparr>,
                     workers := set_status i (Processing req) (workers s)\<rparr>"
        unfolding workerLoop_def by (auto simp: pop_cases)
      show thesis by (rule Dequeue [OF i Running Cons b])
    qed
  next
    case (Processing req)
    with assms i obtain rep st' where a: "process h req (kv s) = Inr (rep, st')"
      and b: "s' = s\<lparr>kv := st', workers := set_status i Running (workers s),
                    applied := applied s @ [req]\<rparr>"
      unfolding workerLoop_def by (auto split: sum.splits)
    show thesis by (rule Apply [OF i Processing a b])
  next
    case Terminated
    with assms i show thesis unfolding workerLoop_def by simp
  qed
qed

lemma run_append:
  "run h (ts @ us) s = (case run h ts s of Blocked \<Rightarrow> Blocked | Raised e \<Rightarrow> Raised e | Next s' \<Rightarrow> run h us s')"
  by (induction ts arbitrary: s) (auto split: step.splits)

lemma run_invariant:
  assumes step: "\<And>t s s'. P s \<Longrightarrow> fire h t s = Next s' \<Longrightarrow> P s'"
  shows "P s \<Longrightarrow> run h ts s = Next s' \<Longrightarrow> P s'"
proof (induction ts arbitrary: s)
  case Nil
  then show ?case by simp
next
  case (Cons t ts)
  from Cons.prems(2) obtain s1 where f: "fire h t s = Next s1" and r: "run h ts s1 = Next s'"
    by (auto split: step.splits)
  from step [OF Cons.prems(1) f] have "P s1" .
  from Cons.IH [OF this r] show ?case .
qed

subsection \<open>Joining\<close>

lemma set_status_length [simp]: "length (set_status i st ws) = length ws"
  by (simp add: set_status_def)

lemma set_status_nth:
  "j < length ws \<Longrightarrow> set_status i st ws ! j = (if j = i then (ws ! i)\<lparr>status := st\<rparr> else ws ! j)"
  by (simp add: set_status_def nth_list_update)

lemma joined_new: "joined (ThreadPool_new n st calls)"
  by (simp add: joined_def ThreadPool_new_def BlockingQueue_new_def)

lemma joined_all:
  "joined s \<Longrightarrow> stopped (queue s) \<Longrightarrow> caller s = Idle \<Longrightarrow> w \<in> set (workers s) \<Longrightarrow>
   status w = Terminated \<and> \<not> joinable w"
  by (simp add: joined_def)

lemma joined_caller_step:
  assumes "joined s" and "caller_step s = Next s'"
  shows "joined s'"
  using assms(2)
proof (cases rule: caller_stepE)
  case (Submit req rest)
  with assms(1) show ?thesis by (simp add: joined_def push_def)
next
  case (Shutdown rest)
  then show ?thesis by (simp add: joined_def shutdown_def)
next
  case (Join i)
  from assms(1) Join(1) have st: "stopped (queue s)" and le: "i \<le> length (workers s)"
    and old: "\<forall>j < i. status (workers s ! j) = Terminated \<and> \<not> joinable (workers s ! j)"
    by (simp_all add: joined_def)
  have "status (workers s' ! j) = Terminated \<and> \<not> joinable (workers s' ! j)" if "j < Suc i" for j
  proof (cases "j = i")
    case True
    with Join show ?thesis by simp
  next
    case False
    with that have "j < i" by simp
    with old Join(2,5) False show ?thesis by simp
  qed
  with st Join show ?thesis by (simp add: joined_def)
next
  case (Return i)
  from assms(1) Return(1) have le: "i \<le> length (workers s)"
    and old: "\<forall>j < i. status (workers s ! j) = Terminated \<and> \<not> joinable (workers s ! j)"
    by (simp_all add: joined_def)
  from le Return(2) have "i = length (workers s)" by simp
  with old have "\<forall>w \<in> set (workers s). status w = Terminated \<and> \<not> joinable w"
    by (auto simp: in_set_conv_nth)
  with Return show ?thesis by (simp add: joined_def)
qed

lemma joined_workerLoop:
  assumes "joined s" and "workerLoop h i s = Next s'"
  shows "joined s'"
proof -
  have i: "i < length (workers s)" and live: "status (workers s ! i) \<noteq> Terminated"
    and ws: "\<exists>st. workers s' = set_status i st (workers s)"
    and c: "caller s' = caller s" and stp: "stopped (queue s') = stopped (queue s)"
    using assms(2) by (cases rule: workerLoopE; auto)+
  from ws obtain st where ws': "workers s' = set_status i st (workers s)" by blast
  show ?thesis
  proof (cases "caller s")
    case Idle
    have "\<not> stopped (queue s)"
    proof
      assume "stopped (queue s)"
      with assms(1) Idle i have "status (workers s ! i) = Terminated"
        by (simp add: joined_def)
      with live show False by simp
    qed
    with Idle c stp show ?thesis by (simp add: joined_def)
  next
    case (Joining j)
    from assms(1) Joining have st: "stopped (queue s)" and le: "j \<le> length (workers s)"
      and old: "\<forall>k < j. status (workers s ! k) = Terminated \<and> \<not> joinable (workers s ! k)"
      by (simp_all add: joined_def)
    have "status (workers s' ! k) = Terminated \<and> \<not> joinable (workers s' ! k)" if "k < j" for k
    proof -
      from that old live have "k \<noteq> i" by auto
      with that le ws' old show ?thesis by (simp add: set_status_nth)
    qed
    with st le Joining c stp ws' show ?thesis by (simp add: joined_def)
  qed
qed

lemma joined_fire: "joined s \<Longrightarrow> fire h t s = Next s' \<Longrightarrow> joined s'"
  by (cases t) (auto intro: joined_caller_step joined_workerLoop)

lemma joined_run: "joined s \<Longrightarrow> run h ts s = Next s' \<Longrightarrow> joined s'"
  by (rule run_invariant [where P = joined]) (auto intro: joined_fire)

subsection \<open>Draining\<close>

lemma in_flight_Cons: "mset (in_flight (w # ws)) = held w + mset (in_flight ws)"
  by (simp add: held_def split: wstatus.splits)

lemma in_flight_update:
  "i < length ws \<Longrightarrow>
   mset (in_flight (ws[i := w])) + held (ws ! i) = mset (in_flight ws) + held w"
proof (induction ws arbitrary: i)
  case Nil
  then show ?case by simp
next
  case (Cons a ws)
  show ?case
  proof (cases i)
    case 0
    then show ?thesis by (simp add: in_flight_Cons del: in_flight.simps)
  next
    case (Suc j)
    with Cons.prems have "j < length ws" by simp
    from Cons.IH [OF this] Suc show ?thesis
      by (simp add: in_flight_Cons del: in_flight.simps)
  qed
qed

lemma in_flight_set_status:
  "i < length ws \<Longrightarrow>
   mset (in_flight (set_status i st ws)) + held (ws ! i)
     = mset (in_flight ws) + held ((ws ! i)\<lparr>status := st\<rparr>)"
  unfolding set_status_def by (rule in_flight_update)

lemma in_flight_joinable:
  "i < length ws \<Longrightarrow>
   mset (in_flight (ws[i := (ws ! i)\<lparr>joinable := b\<rparr>])) = mset (in_flight ws)"
  using in_flight_update [of i ws "(ws ! i)\<lparr>joinable := b\<rparr>"]
  by (simp add: held_def)

lemma in_flight_idle:
  "\<forall>w \<in> set ws. held w = {#} \<Longrightarrow> in_flight ws = []"
proof (induction ws)
  case Nil
  then show ?case by simp
next
  case (Cons w ws)
  then have "held w = {#}" and "in_flight ws = []" by simp_all
  then show ?case by (simp add: held_def split: wstatus.splits)
qed

lemma in_flight_terminated:
  "\<forall>w \<in> set ws. status w = Terminated \<Longrightarrow> in_flight ws = []"
  by (rule in_flight_idle) (simp add: held_def)

lemma flat_process_all_snoc:
  "snd (flat_process_all (reqs @ [req]) m) = snd (flat_process req (snd (flat_process_all reqs m)))"
  by (induction reqs arbitrary: m) (simp_all add: split_beta)

lemma submits_map_Submit [simp]: "submits (map Submit reqs) = reqs"
  by (induction reqs) simp_all

lemma submits_append [simp]: "submits (cs @ ds) = submits cs @ submits ds"
  by (induction cs rule: submits.induct) simp_all

lemma draining_new:
  "0 < shardCount \<Longrightarrow>
   draining h reqs (ThreadPool_new n (KVStore_new shardCount) (map Submit reqs @ [ShutdownPool]))"
  using represents_flat_of [OF represents_new, of shardCount h]
  by (simp add: draining_def ThreadPool_new_def BlockingQueue_new_def KVStore_new_def
      in_flight_idle held_def del: in_flight.simps)


lemma terminated_set_status:
  assumes "i < length ws" and "st \<noteq> Terminated"
    and "\<exists>w \<in> set (set_status i st ws). status w = Terminated"
  shows "\<exists>w \<in> set ws. status w = Terminated"
proof -
  from assms(3) obtain j where j: "j < length ws"
    and t: "status (set_status i st ws ! j) = Terminated"
    by (auto simp: in_set_conv_nth)
  from t j assms(2) have "j \<noteq> i" by (auto simp: set_status_nth)
  with t j have "status (ws ! j) = Terminated" by (simp add: set_status_nth)
  with j nth_mem [of j ws] show ?thesis by blast
qed

lemma todo_shape_Submit:
  "Submit req # rest = map Submit (submits (Submit req # rest)) @ [ShutdownPool] \<Longrightarrow>
   rest \<noteq> [] \<and> rest = map Submit (submits rest) @ [ShutdownPool]"
  by auto

lemma todo_shape_Shutdown:
  "ShutdownPool # rest = map Submit (submits (ShutdownPool # rest)) @ [ShutdownPool] \<Longrightarrow>
   rest = []"
  by (cases "submits rest") simp_all

lemma draining_caller_step:
  assumes d: "draining h reqs s" and step: "caller_step s = Next s'"
  shows "draining h reqs s'"
proof -
  from d have len: "0 < length (shards (kv s))"
    and fin: "todo s = [] \<longrightarrow> stopped (queue s)"
    and live: "todo s \<noteq> [] \<longrightarrow> \<not> stopped (queue s) \<and> caller s = Idle
                 \<and> todo s = map Submit (submits (todo s)) @ [ShutdownPool]"
    and tm: "(\<exists>w \<in> set (workers s). status w = Terminated) \<longrightarrow>
                 stopped (queue s) \<and> q (queue s) = []"
    and cons: "mset (submits (todo s)) + mset (q (queue s)) + mset (in_flight (workers s))
                 + mset (applied s) = mset reqs"
    and flat: "flat_of h (kv s) = snd (flat_process_all (applied s) Map.empty)"
    unfolding draining_def by blast+
  from step show ?thesis
  proof (cases rule: caller_stepE)
    case (Submit req rest)
    from live Submit(2) have ns: "\<not> stopped (queue s)"
      and shape: "Submit req # rest = map Submit (submits (Submit req # rest)) @ [ShutdownPool]"
      by simp_all
    from todo_shape_Submit [OF shape] have rest: "rest \<noteq> []"
      and shape': "rest = map Submit (submits rest) @ [ShutdownPool]" by blast+
    from tm ns have noterm: "\<not> (\<exists>w \<in> set (workers s). status w = Terminated)" by blast
    have c: "mset (submits rest) + mset (q (push req (queue s))) + mset (in_flight (workers s))
               + mset (applied s) = mset reqs"
      using cons Submit(2) by (simp add: push_def)
    show ?thesis
      unfolding draining_def
      using Submit(1,3) len rest shape' ns noterm c flat
      by (simp add: push_def)
  next
    case (Shutdown rest)
    from live Shutdown(2) have ns: "\<not> stopped (queue s)"
      and shape: "ShutdownPool # rest
                    = map Submit (submits (ShutdownPool # rest)) @ [ShutdownPool]"
      by simp_all
    from todo_shape_Shutdown [OF shape] have rest: "rest = []" .
    from tm ns have noterm: "\<not> (\<exists>w \<in> set (workers s). status w = Terminated)" by blast
    have c: "mset (q (shutdown (queue s))) + mset (in_flight (workers s))
               + mset (applied s) = mset reqs"
      using cons Shutdown(2) rest by (simp add: shutdown_def)
    show ?thesis
      unfolding draining_def
      using Shutdown(3) len rest noterm c flat
      by (simp add: shutdown_def)
  next
    case (Join i)
    from live Join(1) have nil: "todo s = []" by auto
    from Join(2,4) nth_mem [of i "workers s"]
    have "\<exists>w \<in> set (workers s). status w = Terminated"
      by blast
    with tm have st: "stopped (queue s)" and em: "q (queue s) = []" by blast+
    have c: "mset (in_flight ((workers s)[i := (workers s ! i)\<lparr>joinable := False\<rparr>]))
               = mset (in_flight (workers s))"
      using Join(2) by (rule in_flight_joinable)
    show ?thesis
      unfolding draining_def
      using Join(5) len nil st em c cons flat
      by simp
  next
    case (Return i)
    from live Return(1) have nil: "todo s = []" by auto
    show ?thesis
      unfolding draining_def
      using Return(3) len nil fin tm cons flat
      by simp
  qed
qed

lemma draining_workerLoop:
  assumes d: "draining h reqs s" and step: "workerLoop h i s = Next s'"
  shows "draining h reqs s'"
proof -
  from d have len: "0 < length (shards (kv s))"
    and fin: "todo s = [] \<longrightarrow> stopped (queue s)"
    and live: "todo s \<noteq> [] \<longrightarrow> \<not> stopped (queue s) \<and> caller s = Idle
                 \<and> todo s = map Submit (submits (todo s)) @ [ShutdownPool]"
    and tm: "(\<exists>w \<in> set (workers s). status w = Terminated) \<longrightarrow>
                 stopped (queue s) \<and> q (queue s) = []"
    and cons: "mset (submits (todo s)) + mset (q (queue s)) + mset (in_flight (workers s))
                 + mset (applied s) = mset reqs"
    and flat: "flat_of h (kv s) = snd (flat_process_all (applied s) Map.empty)"
    unfolding draining_def by blast+
  from step show ?thesis
  proof (cases rule: workerLoopE)
    case Terminate
    have "mset (in_flight (set_status i Terminated (workers s))) + held (workers s ! i)
            = mset (in_flight (workers s)) + held ((workers s ! i)\<lparr>status := Terminated\<rparr>)"
      using Terminate(1) by (rule in_flight_set_status)
    with Terminate(2)
    have c: "mset (in_flight (set_status i Terminated (workers s))) = mset (in_flight (workers s))"
      by (simp add: held_def)
    show ?thesis
      unfolding draining_def
      using Terminate(3,4,5) len fin live c cons flat
      by simp
  next
    case (Dequeue req xs)
    have "mset (in_flight (set_status i (Processing req) (workers s))) + held (workers s ! i)
            = mset (in_flight (workers s)) + held ((workers s ! i)\<lparr>status := Processing req\<rparr>)"
      using Dequeue(1) by (rule in_flight_set_status)
    with Dequeue(2)
    have c: "mset (in_flight (set_status i (Processing req) (workers s)))
               = mset (in_flight (workers s)) + {#req#}"
      by (simp add: held_def)
    have noterm: "\<not> (\<exists>w \<in> set (set_status i (Processing req) (workers s)). status w = Terminated)"
    proof
      assume a: "\<exists>w \<in> set (set_status i (Processing req) (workers s)). status w = Terminated"
      have "\<exists>w \<in> set (workers s). status w = Terminated"
        by (rule terminated_set_status [OF Dequeue(1) _ a]) simp
      with tm Dequeue(3) show False by simp
    qed
    have c': "mset (submits (todo s)) + mset xs
                + mset (in_flight (set_status i (Processing req) (workers s)))
                + mset (applied s) = mset reqs"
      using cons c Dequeue(3) by simp
    show ?thesis
      unfolding draining_def
      using Dequeue(4) len fin live noterm c' flat
      by simp
  next
    case (Apply req rep st')
    have "mset (in_flight (set_status i Running (workers s))) + held (workers s ! i)
            = mset (in_flight (workers s)) + held ((workers s ! i)\<lparr>status := Running\<rparr>)"
      using Apply(1) by (rule in_flight_set_status)
    with Apply(2)
    have c: "mset (in_flight (set_status i Running (workers s))) + {#req#}
               = mset (in_flight (workers s))"
      by (simp add: held_def)
    have c': "mset (submits (todo s)) + mset (q (queue s))
                + mset (in_flight (set_status i Running (workers s)))
                + mset (applied s @ [req]) = mset reqs"
      using cons c [symmetric] by simp
    have t': "(\<exists>w \<in> set (set_status i Running (workers s)). status w = Terminated) \<longrightarrow>
                stopped (queue s) \<and> q (queue s) = []"
    proof
      assume a: "\<exists>w \<in> set (set_status i Running (workers s)). status w = Terminated"
      have "\<exists>w \<in> set (workers s). status w = Terminated"
        by (rule terminated_set_status [OF Apply(1) _ a]) simp
      with tm show "stopped (queue s) \<and> q (queue s) = []" by blast
    qed
    from process_flat_of [OF len, of h req] Apply(3)
    have f': "flat_of h st' = snd (flat_process req (flat_of h (kv s)))"
      and l': "length (shards st') = length (shards (kv s))" by auto
    have f'': "flat_of h st' = snd (flat_process_all (applied s @ [req]) Map.empty)"
      using f' flat by (simp add: flat_process_all_snoc)
    show ?thesis
      unfolding draining_def
      using Apply(4) len l' fin live t' c' f''
      by simp
  qed
qed

lemma draining_fire: "draining h reqs s \<Longrightarrow> fire h t s = Next s' \<Longrightarrow> draining h reqs s'"
  by (cases t) (auto intro: draining_caller_step draining_workerLoop)

lemma draining_run: "draining h reqs s \<Longrightarrow> run h ts s = Next s' \<Longrightarrow> draining h reqs s'"
  by (rule run_invariant [where P = "draining h reqs"]) (auto intro: draining_fire)

section \<open>Draining on shutdown\<close>

lemma flat_process_all_only_set:
  "\<forall>r \<in> set xs. rkey r = k \<longrightarrow> rtype r = GET \<or> (rtype r = SET \<and> rvalue r = v) \<Longrightarrow>
   snd (flat_process_all xs m) k
     = (if \<exists>r \<in> set xs. rkey r = k \<and> rtype r = SET then Some v else m k)"
proof (induction xs arbitrary: m)
  case Nil
  then show ?case by simp
next
  case (Cons x xs)
  let ?m = "snd (flat_process x m)"
  have step: "snd (flat_process_all (x # xs) m) k = snd (flat_process_all xs ?m) k"
    by (simp add: split_beta)
  have ih: "snd (flat_process_all xs ?m) k
      = (if \<exists>r \<in> set xs. rkey r = k \<and> rtype r = SET then Some v else ?m k)"
    using Cons.IH [of ?m] Cons.prems by simp
  have hd: "?m k = (if rkey x = k \<and> rtype x = SET then Some v else m k)"
    using Cons.prems by (cases "rtype x") (auto simp: flat_process_def)
  show ?case unfolding step ih hd by auto
qed

lemma flat_process_all_one_value:
  "\<forall>r \<in> set xs. rkey r = k \<and> rtype r = SET \<longrightarrow> rvalue r = v \<Longrightarrow>
   m k = None \<or> m k = Some v \<Longrightarrow>
   snd (flat_process_all xs m) k = None \<or> snd (flat_process_all xs m) k = Some v"
proof (induction xs arbitrary: m)
  case Nil
  then show ?case by simp
next
  case (Cons x xs)
  let ?m = "snd (flat_process x m)"
  have step: "snd (flat_process_all (x # xs) m) k = snd (flat_process_all xs ?m) k"
    by (simp add: split_beta)
  have hd: "?m k = None \<or> ?m k = Some v"
    using Cons.prems by (cases "rtype x") (auto simp: flat_process_def)
  from Cons.IH [of ?m] hd Cons.prems(1) show ?case unfolding step by simp
qed

lemma main_requests_b:
  assumes "set xs = set main_requests"
  shows "snd (flat_process_all xs Map.empty) ''b'' = Some ''2''"
proof -
  have a: "\<forall>r \<in> set xs. rkey r = ''b'' \<longrightarrow> rtype r = GET \<or> (rtype r = SET \<and> rvalue r = ''2'')"
    unfolding assms by (simp add: main_requests_def)
  have b: "\<exists>r \<in> set xs. rkey r = ''b'' \<and> rtype r = SET"
    unfolding assms by (simp add: main_requests_def)
  from flat_process_all_only_set [OF a, of Map.empty] b show ?thesis by simp
qed

lemma main_requests_a:
  assumes "set xs = set main_requests"
  shows "snd (flat_process_all xs Map.empty) ''a'' = None
         \<or> snd (flat_process_all xs Map.empty) ''a'' = Some ''1''"
proof -
  have a: "\<forall>r \<in> set xs. rkey r = ''a'' \<and> rtype r = SET \<longrightarrow> rvalue r = ''1''"
    unfolding assms by (simp add: main_requests_def)
  show ?thesis by (rule flat_process_all_one_value [OF a]) simp
qed

lemma fire_workers_length:
  assumes "fire h t s = Next s'"
  shows "length (workers s') = length (workers s)"
proof (cases t)
  case Main
  with assms have "caller_step s = Next s'" by simp
  then show ?thesis by (cases rule: caller_stepE) simp_all
next
  case (Worker i)
  with assms have "workerLoop h i s = Next s'" by simp
  then show ?thesis by (cases rule: workerLoopE) simp_all
qed

lemma run_workers_length:
  "run h ts s = Next s' \<Longrightarrow> length (workers s') = length (workers s)"
  by (rule run_invariant [where P = "\<lambda>x. length (workers x) = length (workers s)" and h = h])
    (simp_all add: fire_workers_length)

lemma drained:
  assumes d: "draining h reqs s" and j: "joined s" and f: "finished s"
    and n: "workers s \<noteq> []"
  shows "q (queue s) = [] \<and> (\<forall>w \<in> set (workers s). status w = Terminated)
         \<and> mset (applied s) = mset reqs
         \<and> (\<forall>k. KVStore_get h (kv s) k = Inr (snd (flat_process_all (applied s) Map.empty) k))"
proof -
  from f have nil: "todo s = []" and idle: "caller s = Idle" by (simp_all add: finished_def)
  from d nil have st: "stopped (queue s)" by (simp add: draining_def)
  from j st idle have all: "\<forall>w \<in> set (workers s). status w = Terminated"
    by (simp add: joined_def)
  from n obtain w where "w \<in> set (workers s)" by (cases "workers s") auto
  with all have "\<exists>w \<in> set (workers s). status w = Terminated" by blast
  with d have em: "q (queue s) = []" by (simp add: draining_def)
  from all have fl: "in_flight (workers s) = []" by (rule in_flight_terminated)
  from d have "mset (submits (todo s)) + mset (q (queue s)) + mset (in_flight (workers s))
                 + mset (applied s) = mset reqs" by (simp add: draining_def)
  with nil em fl have ap: "mset (applied s) = mset reqs" by simp
  from d have len: "0 < length (shards (kv s))"
    and flat: "flat_of h (kv s) = snd (flat_process_all (applied s) Map.empty)"
    by (simp_all add: draining_def)
  have "KVStore_get h (kv s) k = Inr (snd (flat_process_all (applied s) Map.empty) k)" for k
    using get_flat_of [OF len, of h k] flat by simp
  with em all ap show ?thesis by blast
qed

subsection \<open>Progress\<close>

lemma sum_list_update_nat:
  "i < length ws \<Longrightarrow>
   sum_list (map f (ws[i := w])) + f (ws ! i) = sum_list (map f ws) + (f w :: nat)"
proof (induction ws arbitrary: i)
  case Nil
  then show ?case by simp
next
  case (Cons a ws)
  show ?case
  proof (cases i)
    case 0
    then show ?thesis by simp
  next
    case (Suc j)
    with Cons.prems have "j < length ws" by simp
    from Cons.IH [OF this] Suc show ?thesis by simp
  qed
qed

lemma weight_set_status:
  "i < length ws \<Longrightarrow>
   sum_list (map weight (set_status i st ws)) + weight (ws ! i)
     = sum_list (map weight ws) + weight ((ws ! i)\<lparr>status := st\<rparr>)"
  unfolding set_status_def by (rule sum_list_update_nat)

lemma work_caller_step:
  assumes "caller_step s = Next s'"
  shows "work s = Suc (work s')"
  using assms
proof (cases rule: caller_stepE)
  case (Submit req rest)
  then show ?thesis by (simp add: work_def push_def)
next
  case (Shutdown rest)
  then show ?thesis by (simp add: work_def shutdown_def)
next
  case (Join i)
  have "sum_list (map weight ((workers s)[i := (workers s ! i)\<lparr>joinable := False\<rparr>]))
          + weight (workers s ! i)
        = sum_list (map weight (workers s)) + weight ((workers s ! i)\<lparr>joinable := False\<rparr>)"
    using Join(2) by (rule sum_list_update_nat)
  with Join(3,4)
  have "sum_list (map weight (workers s))
          = Suc (sum_list (map weight ((workers s)[i := (workers s ! i)\<lparr>joinable := False\<rparr>])))"
    by (simp add: weight_def)
  with Join(1,5) show ?thesis by (simp add: work_def)
next
  case (Return i)
  then show ?thesis by (simp add: work_def)
qed

lemma work_workerLoop:
  assumes "workerLoop h i s = Next s'"
  shows "work s = Suc (work s')"
  using assms
proof (cases rule: workerLoopE)
  case Terminate
  from weight_set_status [OF Terminate(1), of Terminated] Terminate(2)
  have "sum_list (map weight (workers s))
          = Suc (sum_list (map weight (set_status i Terminated (workers s))))"
    by (simp add: weight_def)
  with Terminate(5) show ?thesis by (simp add: work_def)
next
  case (Dequeue req xs)
  from weight_set_status [OF Dequeue(1), of "Processing req"] Dequeue(2)
  have "Suc (sum_list (map weight (workers s)))
          = sum_list (map weight (set_status i (Processing req) (workers s)))"
    by (simp add: weight_def)
  with Dequeue(3,4) show ?thesis by (simp add: work_def)
next
  case (Apply req rep st')
  from weight_set_status [OF Apply(1), of Running] Apply(2)
  have "sum_list (map weight (workers s))
          = Suc (sum_list (map weight (set_status i Running (workers s))))"
    by (simp add: weight_def)
  with Apply(4) show ?thesis by (simp add: work_def)
qed

lemma work_fire: "fire h t s = Next s' \<Longrightarrow> work s = Suc (work s')"
  by (cases t) (simp_all add: work_caller_step work_workerLoop)

lemma work_run: "run h ts s = Next s' \<Longrightarrow> work s = length ts + work s'"
proof (induction ts arbitrary: s)
  case Nil
  then show ?case by simp
next
  case (Cons t ts)
  from Cons.prems obtain s1 where f: "fire h t s = Next s1" and r: "run h ts s1 = Next s'"
    by (auto split: step.splits)
  from work_fire [OF f] Cons.IH [OF r] show ?case by simp
qed

lemma work_main_pool: "work main_pool = 24"
  by code_simp

lemma fresh_new: "fresh (ThreadPool_new n st calls)"
  by (simp add: fresh_def ThreadPool_new_def)

lemma fresh_caller_step:
  assumes fr: "fresh s" and d: "draining h reqs s" and step: "caller_step s = Next s'"
  shows "fresh s'"
proof -
  from d have fin: "todo s = [] \<longrightarrow> stopped (queue s)"
    and live: "todo s \<noteq> [] \<longrightarrow> \<not> stopped (queue s) \<and> caller s = Idle"
    unfolding draining_def by blast+
  from step show ?thesis
  proof (cases rule: caller_stepE)
    case (Submit req rest)
    with fr show ?thesis by (simp add: fresh_def push_def)
  next
    case (Shutdown rest)
    with live have "\<not> stopped (queue s)" by simp
    with fr Shutdown(1) have "\<forall>w \<in> set (workers s). joinable w" by (simp add: fresh_def)
    with Shutdown(3) show ?thesis by (simp add: fresh_def)
  next
    case (Join i)
    with fr show ?thesis by (simp add: fresh_def)
  next
    case (Return i)
    with live have "todo s = []" by auto
    with fin have "stopped (queue s)" by simp
    with Return(3) show ?thesis by (simp add: fresh_def)
  qed
qed

lemma fresh_workerLoop:
  assumes fr: "fresh s" and step: "workerLoop h i s = Next s'"
  shows "fresh s'"
proof -
  have i: "i < length (workers s)"
    and ws: "\<exists>st. workers s' = set_status i st (workers s)"
    and c: "caller s' = caller s" and stp: "stopped (queue s') = stopped (queue s)"
    using step by (cases rule: workerLoopE; auto)+
  from ws obtain st where ws': "workers s' = set_status i st (workers s)" by blast
  have same: "joinable (workers s' ! k) = joinable (workers s ! k)" if "k < length (workers s)" for k
    using that ws' by (simp add: set_status_nth)
  show ?thesis
  proof (cases "caller s")
    case Idle
    show ?thesis
    proof (cases "stopped (queue s)")
      case True
      with Idle c stp show ?thesis by (simp add: fresh_def)
    next
      case False
      with fr Idle have all: "\<forall>w \<in> set (workers s). joinable w" by (simp add: fresh_def)
      have "joinable w" if "w \<in> set (workers s')" for w
      proof -
        from that ws' obtain k where k: "k < length (workers s)" and w: "w = workers s' ! k"
          by (auto simp: in_set_conv_nth)
        from all k have "joinable (workers s ! k)" by simp
        with same [OF k] w show ?thesis by simp
      qed
      with Idle c show ?thesis by (simp add: fresh_def)
    qed
  next
    case (Joining j)
    with fr have "\<forall>k. j \<le> k \<and> k < length (workers s) \<longrightarrow> joinable (workers s ! k)"
      by (simp add: fresh_def)
    with same ws' have "\<forall>k. j \<le> k \<and> k < length (workers s') \<longrightarrow> joinable (workers s' ! k)"
      by simp
    with Joining c show ?thesis by (simp add: fresh_def)
  qed
qed

text \<open>The three invariants of the reference program together.\<close>

lemma program_invariant_fire:
  assumes "draining h reqs s \<and> joined s \<and> fresh s" and "fire h t s = Next s'"
  shows "draining h reqs s' \<and> joined s' \<and> fresh s'"
proof (cases t)
  case Main
  with assms show ?thesis
    by (auto intro: draining_caller_step joined_caller_step fresh_caller_step)
next
  case (Worker i)
  with assms show ?thesis
    by (auto intro: draining_workerLoop joined_workerLoop fresh_workerLoop)
qed

lemma program_invariant_run:
  "draining h reqs s \<and> joined s \<and> fresh s \<Longrightarrow> run h ts s = Next s' \<Longrightarrow>
   draining h reqs s' \<and> joined s' \<and> fresh s'"
proof (induction ts arbitrary: s)
  case Nil
  then show ?case by simp
next
  case (Cons t ts)
  from Cons.prems(2) obtain s1 where f: "fire h t s = Next s1" and r: "run h ts s1 = Next s'"
    by (auto split: step.splits)
  from program_invariant_fire [OF Cons.prems(1) f]
  have "draining h reqs s1 \<and> joined s1 \<and> fresh s1" .
  from Cons.IH [OF this r] show ?case .
qed

lemma never_raised:
  assumes d: "draining h reqs s" and fr: "fresh s"
  shows "fire h t s \<noteq> Raised e"
proof (cases t)
  case Main
  have "caller_step s \<noteq> Raised e"
  proof
    assume "caller_step s = Raised e"
    then obtain i where "caller s = Joining i" "i < length (workers s)"
      "\<not> joinable (workers s ! i)"
      unfolding caller_step_def
      by (auto split: caller.splits list.splits call.splits if_splits)
    with fr show False by (simp add: fresh_def)
  qed
  with Main show ?thesis by simp
next
  case (Worker i)
  from d have len: "0 < length (shards (kv s))" by (simp add: draining_def)
  have "workerLoop h i s \<noteq> Raised e"
  proof
    assume "workerLoop h i s = Raised e"
    then obtain req where "process h req (kv s) = Inl e"
      unfolding workerLoop_def
      by (auto split: if_splits wstatus.splits popped.splits sum.splits)
    with process_flat_of [OF len, of h req] show False by auto
  qed
  with Worker show ?thesis by simp
qed

lemma never_stuck:
  assumes d: "draining h reqs s" and j: "joined s" and fr: "fresh s"
    and nf: "\<not> finished s"
  shows "\<exists>t s'. fire h t s = Next s'"
proof (cases "todo s")
  case (Cons c cs)
  with d have "caller s = Idle" by (simp add: draining_def)
  with Cons have "\<exists>s'. caller_step s = Next s'"
    by (cases c) (simp_all add: caller_step_def)
  then have "\<exists>s'. fire h Main s = Next s'" by simp
  then show ?thesis by blast
next
  case Nil
  with nf obtain k where k: "caller s = Joining k"
    by (cases "caller s") (simp_all add: finished_def)
  from d Nil have st: "stopped (queue s)" by (simp add: draining_def)
  from d have len: "0 < length (shards (kv s))" by (simp add: draining_def)
  show ?thesis
  proof (cases "k < length (workers s)")
    case False
    with k have "caller_step s = Next (s\<lparr>caller := Idle\<rparr>)" by (simp add: caller_step_def)
    then have "fire h Main s = Next (s\<lparr>caller := Idle\<rparr>)" by simp
    then show ?thesis by blast
  next
    case True
    from fr k True have jn: "joinable (workers s ! k)" by (simp add: fresh_def)
    show ?thesis
    proof (cases "status (workers s ! k)")
      case Terminated
      with k True jn have "\<exists>s'. caller_step s = Next s'" by (simp add: caller_step_def)
      then have "\<exists>s'. fire h Main s = Next s'" by simp
      then show ?thesis by blast
    next
      case Running
      with True st have "\<exists>s'. workerLoop h k s = Next s'"
        by (simp add: workerLoop_def pop_cases)
      then have "\<exists>s'. fire h (Worker k) s = Next s'" by simp
      then show ?thesis by blast
    next
      case (Processing req)
      from process_flat_of [OF len, of h req]
      obtain rep st' where "process h req (kv s) = Inr (rep, st')" by blast
      with True Processing have "\<exists>s'. workerLoop h k s = Next s'"
        by (simp add: workerLoop_def)
      then have "\<exists>s'. fire h (Worker k) s = Next s'" by simp
      then show ?thesis by blast
    qed
  qed
qed

lemma map_step_NextD: "map_step f r = Next y \<Longrightarrow> \<exists>s. r = Next s \<and> f s = y"
  by (cases r) (simp_all add: map_step_def)

lemma weight_joined:
  "\<forall>w \<in> set ws. status w = Terminated \<and> \<not> joinable w \<Longrightarrow> sum_list (map weight ws) = 0"
proof (induction ws)
  case Nil
  then show ?case by simp
next
  case (Cons a ws)
  from Cons.prems have t: "status a = Terminated" and nj: "\<not> joinable a"
    and rest: "\<forall>w \<in> set ws. status w = Terminated \<and> \<not> joinable w" by simp_all
  have "weight a = 0" using t nj by (simp add: weight_def)
  with Cons.IH [OF rest] show ?case by simp
qed

lemma main_pool_invariant: "draining h main_requests main_pool \<and> joined main_pool \<and> fresh main_pool"
proof -
  have "draining h main_requests main_pool"
    unfolding main_pool_def by (rule draining_new) simp
  moreover have "joined main_pool"
    unfolding main_pool_def by (rule joined_new)
  moreover have "fresh main_pool"
    unfolding main_pool_def by (rule fresh_new)
  ultimately show ?thesis by blast
qed

text \<open>
  C1 (drain on shutdown, the reference program). In every execution of \<^verbatim>\<open>main\<close> with
  four shards and two workers, under every schedule and every hash: no transition raises,
  some thread can take a transition until \<^verbatim>\<open>shutdown()\<close> has returned, and after
  exactly 24 transitions it has. When it has returned, the queue is empty, no worker
  holds a request, every worker is terminated, the requests applied to the store are the
  six submitted ones, the store is the flat map after them in the order they were
  applied, and \<open>get b\<close> is \<open>2\<close>. \<open>get a\<close> is absent or \<open>1\<close>: a worker applies a
  request after it has released the queue, so the other worker can dequeue and apply
  \<^verbatim>\<open>DEL a\<close> before \<^verbatim>\<open>SET a 1\<close> is applied. \<open>racy_schedule\<close> is such an
  execution and ends with \<open>get a = 1\<close>; \<open>orderly_schedule\<close> ends with \<open>a\<close> absent.
\<close>

theorem drain_on_shutdown:
  "run h sched main_pool = Next s \<Longrightarrow>
   length sched + work s = 24
   \<and> (\<forall>t e. fire h t s \<noteq> Raised e)
   \<and> (\<not> finished s \<longrightarrow> (\<exists>t s'. fire h t s = Next s'))
   \<and> (finished s \<longrightarrow>
        length sched = 24
        \<and> q (queue s) = [] \<and> in_flight (workers s) = []
        \<and> (\<forall>w \<in> set (workers s). status w = Terminated)
        \<and> mset (applied s) = mset main_requests
        \<and> (\<forall>k. KVStore_get h (kv s) k = Inr (snd (flat_process_all (applied s) Map.empty) k))
        \<and> KVStore_get h (kv s) ''b'' = Inr (Some ''2'')
        \<and> (KVStore_get h (kv s) ''a'' = Inr None
            \<or> KVStore_get h (kv s) ''a'' = Inr (Some ''1'')))"
proof -
  assume r: "run h sched main_pool = Next s"
  from program_invariant_run [OF main_pool_invariant r]
  have d: "draining h main_requests s" and j: "joined s" and fr: "fresh s" by blast+
  from work_run [OF r] have w: "length sched + work s = 24" by (simp add: work_main_pool)
  have nr: "\<forall>t e. fire h t s \<noteq> Raised e"
    using never_raised [OF d fr] by blast
  have ns: "\<not> finished s \<longrightarrow> (\<exists>t s'. fire h t s = Next s')"
    using never_stuck [OF d j fr] by blast
  have fin: "length sched = 24
        \<and> q (queue s) = [] \<and> in_flight (workers s) = []
        \<and> (\<forall>w \<in> set (workers s). status w = Terminated)
        \<and> mset (applied s) = mset main_requests
        \<and> (\<forall>k. KVStore_get h (kv s) k = Inr (snd (flat_process_all (applied s) Map.empty) k))
        \<and> KVStore_get h (kv s) ''b'' = Inr (Some ''2'')
        \<and> (KVStore_get h (kv s) ''a'' = Inr None
            \<or> KVStore_get h (kv s) ''a'' = Inr (Some ''1''))" if f: "finished s"
  proof -
    have len0: "length (workers main_pool) = 2"
      by (simp add: main_pool_def ThreadPool_new_def)
    have "length (workers s) = length (workers main_pool)"
      using r by (rule run_workers_length)
    with len0 have n: "workers s \<noteq> []" by auto
    from drained [OF d j f n]
    have em: "q (queue s) = []" and all: "\<forall>w \<in> set (workers s). status w = Terminated"
      and ap: "mset (applied s) = mset main_requests"
      and g: "\<forall>k. KVStore_get h (kv s) k = Inr (snd (flat_process_all (applied s) Map.empty) k)"
      by blast+
    from all have fl: "in_flight (workers s) = []" by (rule in_flight_terminated)
    from ap have se: "set (applied s) = set main_requests" by (rule mset_eq_setD)
    from g main_requests_b [OF se] have b: "KVStore_get h (kv s) ''b'' = Inr (Some ''2'')"
      by simp
    from g main_requests_a [OF se]
    have a: "KVStore_get h (kv s) ''a'' = Inr None
               \<or> KVStore_get h (kv s) ''a'' = Inr (Some ''1'')"
      by auto
    from f have nil: "todo s = []" and idle: "caller s = Idle" by (simp_all add: finished_def)
    from d nil have st: "stopped (queue s)" by (simp add: draining_def)
    from j st idle have "\<forall>w \<in> set (workers s). status w = Terminated \<and> \<not> joinable w"
      by (simp add: joined_def)
    then have "sum_list (map weight (workers s)) = 0" by (rule weight_joined)
    with nil idle em have "work s = 0" by (simp add: work_def)
    with w have l: "length sched = 24" by simp
    show ?thesis
      apply (rule conjI, rule l)
      apply (rule conjI, rule em)
      apply (rule conjI, rule fl)
      apply (rule conjI, rule all)
      apply (rule conjI, rule ap)
      apply (rule conjI, rule g)
      apply (rule conjI, rule b)
      apply (rule a)
      done
  qed
  show ?thesis
    apply (rule conjI, rule w)
    apply (rule conjI, rule nr)
    apply (rule conjI, rule ns)
    apply (rule impI, erule fin)
    done
qed

theorem drain_on_shutdown_witness:
  "\<exists>s. run byte_sum orderly_schedule main_pool = Next s \<and> finished s
      \<and> length orderly_schedule = 24
      \<and> q (queue s) = [] \<and> mset (applied s) = mset main_requests
      \<and> KVStore_get byte_sum (kv s) ''b'' = Inr (Some ''2'')
      \<and> KVStore_get byte_sum (kv s) ''a'' = Inr None"
proof -
  have "map_step (\<lambda>s. (finished s, final_get byte_sum ''a'' s))
          (run byte_sum orderly_schedule main_pool) = Next (True, Inr None)"
    by code_simp
  from map_step_NextD [OF this]
  obtain s where r: "run byte_sum orderly_schedule main_pool = Next s"
    and f: "finished s" and a: "KVStore_get byte_sum (kv s) ''a'' = Inr None"
    by (auto simp: final_get_def)
  note fin = drain_on_shutdown [OF r, THEN conjunct2, THEN conjunct2, THEN conjunct2, THEN mp, OF f]
  note l = fin [THEN conjunct1]
  note em = fin [THEN conjunct2, THEN conjunct1]
  note ap = fin [THEN conjunct2, THEN conjunct2, THEN conjunct2, THEN conjunct2, THEN conjunct1]
  note b = fin [THEN conjunct2, THEN conjunct2, THEN conjunct2, THEN conjunct2, THEN conjunct2,
      THEN conjunct2, THEN conjunct1]
  show ?thesis
    apply (rule exI [of _ s])
    apply (rule conjI, rule r)
    apply (rule conjI, rule f)
    apply (rule conjI, rule l)
    apply (rule conjI, rule em)
    apply (rule conjI, rule ap)
    apply (rule conjI, rule b)
    apply (rule a)
    done
qed

theorem drain_on_shutdown_counterexample:
  "map_step finished (run byte_sum racy_schedule main_pool) = Next True
   \<and> map_step (final_get byte_sum ''a'') (run byte_sum racy_schedule main_pool)
       = Next (Inr (Some ''1''))"
  by code_simp

section \<open>Shutdown twice, malformed and late submissions\<close>

lemma shutdown_stopped: "stopped b \<Longrightarrow> shutdown b = b"
  by (cases b) (simp add: shutdown_def)

lemma ThreadPool_new_workers: "length (workers (ThreadPool_new n st calls)) = n"
  by (simp add: ThreadPool_new_def)

text \<open>
  C6 (shutdown twice). \<^verbatim>\<open>BlockingQueue::shutdown\<close> is idempotent. When a call of
  \<^verbatim>\<open>ThreadPool::shutdown\<close> has returned (the queue is stopped and the caller is back),
  every worker is terminated, and a second call first repeats \<^verbatim>\<open>queue.shutdown()\<close>,
  which changes nothing: queue, workers and store are as they were. It then joins the
  workers again: with no worker it returns, with at least one worker the first
  \<^verbatim>\<open>join\<close> is on a thread that is no longer joinable and raises
  \<^verbatim>\<open>std::system_error\<close>. It never waits.
\<close>

theorem second_shutdown:
  "run h sched (ThreadPool_new n st calls) = Next s \<Longrightarrow>
   stopped (queue s) \<Longrightarrow> caller s = Idle \<Longrightarrow> todo s = ShutdownPool # rest \<Longrightarrow>
   shutdown (shutdown (queue s)) = shutdown (queue s)
   \<and> shutdown (queue s) = queue s
   \<and> (\<forall>w \<in> set (workers s). status w = Terminated)
   \<and> caller_step s = Next (s\<lparr>todo := rest, caller := Joining 0\<rparr>)
   \<and> caller_step (s\<lparr>todo := rest, caller := Joining 0\<rparr>)
       = (if n = 0 then Next (s\<lparr>todo := rest\<rparr>) else Raised SystemError)"
proof -
  assume r: "run h sched (ThreadPool_new n st calls) = Next s"
    and st: "stopped (queue s)" and idle: "caller s = Idle"
    and td: "todo s = ShutdownPool # rest"
  from joined_run [OF joined_new r] have j: "joined s" .
  from run_workers_length [OF r] have len: "length (workers s) = n"
    by (simp add: ThreadPool_new_workers)
  from j st idle have all: "\<forall>w \<in> set (workers s). status w = Terminated \<and> \<not> joinable w"
    by (simp add: joined_def)
  have a: "shutdown (shutdown (queue s)) = shutdown (queue s)"
    by (simp add: shutdown_def)
  have b: "shutdown (queue s) = queue s"
    using st by (rule shutdown_stopped)
  have c: "\<forall>w \<in> set (workers s). status w = Terminated"
    using all by simp
  have "caller_step s
          = Next (s\<lparr>queue := shutdown (queue s), todo := rest, caller := Joining 0\<rparr>)"
    using idle td by (simp add: caller_step_def)
  then have d: "caller_step s = Next (s\<lparr>todo := rest, caller := Joining 0\<rparr>)"
    by (simp add: b)
  have e: "caller_step (s\<lparr>todo := rest, caller := Joining 0\<rparr>)
             = (if n = 0 then Next (s\<lparr>todo := rest\<rparr>) else Raised SystemError)"
  proof (cases "n = 0")
    case True
    have "s\<lparr>todo := rest, caller := Idle\<rparr> = s\<lparr>todo := rest\<rparr>"
      using idle by (cases s) simp
    with True len show ?thesis by (simp add: caller_step_def)
  next
    case False
    with len have 0: "0 < length (workers s)" by simp
    then have "workers s ! 0 \<in> set (workers s)" by (rule nth_mem)
    with all have "\<not> joinable (workers s ! 0)" by blast
    with False 0 show ?thesis by (simp add: caller_step_def)
  qed
  show ?thesis
    apply (rule conjI, rule a)
    apply (rule conjI, rule b)
    apply (rule conjI, rule c)
    apply (rule conjI, rule d)
    apply (rule e)
    done
qed

theorem second_shutdown_witness:
  "\<exists>s. run byte_sum [Main, Worker 0, Worker 1, Main, Main, Main]
          (ThreadPool_new 2 (KVStore_new 4) [ShutdownPool, ShutdownPool]) = Next s
      \<and> caller_step s = Next (s\<lparr>todo := [], caller := Joining 0\<rparr>)
      \<and> caller_step (s\<lparr>todo := [], caller := Joining 0\<rparr>) = Raised SystemError"
proof -
  let ?p = "ThreadPool_new 2 (KVStore_new 4) [ShutdownPool, ShutdownPool]"
  let ?ts = "[Main, Worker 0, Worker 1, Main, Main, Main]"
  have "map_step (\<lambda>s. (stopped (queue s), caller s, todo s)) (run byte_sum ?ts ?p)
          = Next (True, Idle, [ShutdownPool])"
    by code_simp
  from map_step_NextD [OF this]
  obtain s where r: "run byte_sum ?ts ?p = Next s" and st: "stopped (queue s)"
    and idle: "caller s = Idle" and td: "todo s = [ShutdownPool]"
    by auto
  note t = second_shutdown [OF r st idle td]
  note d = t [THEN conjunct2, THEN conjunct2, THEN conjunct2, THEN conjunct1]
  from t have e: "caller_step (s\<lparr>todo := [], caller := Joining 0\<rparr>) = Raised SystemError"
    by simp
  show ?thesis
    apply (rule exI [of _ s])
    apply (rule conjI, rule r)
    apply (rule conjI, rule d)
    apply (rule e)
    done
qed

theorem second_shutdown_counterexample:
  "map_step finished
     (run byte_sum [Main, Worker 0, Worker 1, Main, Main, Main]
        (ThreadPool_new 2 (KVStore_new 4) [ShutdownPool, ShutdownPool])) = Next False
   \<and> map_step finished
     (run byte_sum [Main, Worker 0, Worker 1, Main, Main, Main, Main, Main]
        (ThreadPool_new 2 (KVStore_new 4) [ShutdownPool, ShutdownPool])) = Raised SystemError"
  by code_simp

lemma call_work_submits: "sum_list (map (call_work \<circ> Submit) reqs) = 3 * length reqs"
  by (induction reqs) simp_all

lemma weight_running: "weight \<lparr>status = Running, joinable = True\<rparr> = 2"
  by (simp add: weight_def)

lemma work_new:
  "work (ThreadPool_new n st (map Submit reqs @ [ShutdownPool])) = 3 * length reqs + 2 * n + 2"
  by (simp add: work_def ThreadPool_new_def BlockingQueue_new_def call_work_submits
      weight_running sum_list_replicate)

text \<open>
  C7 (requests with an empty key). No step looks at the key of a request, so a request
  with the empty key is handled like any other. \<^verbatim>\<open>submit\<close> appends it to the queue.
  A running worker that finds it at the head of the queue dequeues it. A worker that
  holds it applies it to the store of the pool as the flat map would, the empty string
  being a key like any other, and records it as applied. In a pool with at least one
  worker and one shard whose caller submits requests and then calls \<^verbatim>\<open>shutdown()\<close>,
  under every schedule and hash no transition raises, some thread can take a transition
  until \<^verbatim>\<open>shutdown()\<close> has returned, and when it has returned the requests applied are
  the requests submitted and the store is the flat map after them.
  \<open>empty_key_schedule\<close> runs \<^verbatim>\<open>SET "" x\<close> and \<^verbatim>\<open>GET ""\<close> to the end: the value is
  stored under the empty key.
\<close>

theorem submit_accepts:
  "(caller s = Idle \<longrightarrow> todo s = Submit req # rest \<longrightarrow>
      caller_step s = Next (s\<lparr>queue := push req (queue s), todo := rest\<rparr>)
      \<and> q (push req (queue s)) = q (queue s) @ [req])
   \<and> (i < length (workers s) \<longrightarrow> status (workers s ! i) = Running \<longrightarrow>
      q (queue s) = req # xs \<longrightarrow>
      workerLoop h i s
        = Next (s\<lparr>queue := (queue s)\<lparr>q := xs\<rparr>,
                  workers := set_status i (Processing req) (workers s)\<rparr>))
   \<and> (i < length (workers s) \<longrightarrow> status (workers s ! i) = Processing req \<longrightarrow>
      0 < length (shards (kv s)) \<longrightarrow>
      (\<exists>st'. process h req (kv s) = Inr (fst (flat_process req (flat_of h (kv s))), st')
         \<and> flat_of h st' = snd (flat_process req (flat_of h (kv s)))
         \<and> workerLoop h i s
             = Next (s\<lparr>kv := st', workers := set_status i Running (workers s),
                       applied := applied s @ [req]\<rparr>)))
   \<and> (0 < n \<longrightarrow> 0 < shardCount \<longrightarrow>
      run h sched (ThreadPool_new n (KVStore_new shardCount) (map Submit reqs @ [ShutdownPool]))
        = Next s' \<longrightarrow>
      length sched + work s' = 3 * length reqs + 2 * n + 2
      \<and> (\<forall>t e. fire h t s' \<noteq> Raised e)
      \<and> (\<not> finished s' \<longrightarrow> (\<exists>t s''. fire h t s' = Next s''))
      \<and> (finished s' \<longrightarrow>
           mset (applied s') = mset reqs
           \<and> (\<forall>k. KVStore_get h (kv s') k
                   = Inr (snd (flat_process_all (applied s') Map.empty) k))))"
proof -
  have a: "caller_step s = Next (s\<lparr>queue := push req (queue s), todo := rest\<rparr>)
      \<and> q (push req (queue s)) = q (queue s) @ [req]"
    if "caller s = Idle" and "todo s = Submit req # rest"
    using that by (simp add: caller_step_def push_def)
  have b: "workerLoop h i s
        = Next (s\<lparr>queue := (queue s)\<lparr>q := xs\<rparr>,
                  workers := set_status i (Processing req) (workers s)\<rparr>)"
    if "i < length (workers s)" and "status (workers s ! i) = Running"
      and "q (queue s) = req # xs"
    using that by (simp add: workerLoop_def pop_cases)
  have c: "\<exists>st'. process h req (kv s) = Inr (fst (flat_process req (flat_of h (kv s))), st')
         \<and> flat_of h st' = snd (flat_process req (flat_of h (kv s)))
         \<and> workerLoop h i s
             = Next (s\<lparr>kv := st', workers := set_status i Running (workers s),
                       applied := applied s @ [req]\<rparr>)"
    if i: "i < length (workers s)" and p: "status (workers s ! i) = Processing req"
      and len: "0 < length (shards (kv s))"
  proof -
    from process_flat_of [OF len, of h req] obtain st' where
      pr: "process h req (kv s) = Inr (fst (flat_process req (flat_of h (kv s))), st')"
      and fl: "flat_of h st' = snd (flat_process req (flat_of h (kv s)))" by blast
    have "workerLoop h i s
             = Next (s\<lparr>kv := st', workers := set_status i Running (workers s),
                       applied := applied s @ [req]\<rparr>)"
      using i p pr by (simp add: workerLoop_def)
    with pr fl show ?thesis by blast
  qed
  have d: "length sched + work s' = 3 * length reqs + 2 * n + 2
      \<and> (\<forall>t e. fire h t s' \<noteq> Raised e)
      \<and> (\<not> finished s' \<longrightarrow> (\<exists>t s''. fire h t s' = Next s''))
      \<and> (finished s' \<longrightarrow>
           mset (applied s') = mset reqs
           \<and> (\<forall>k. KVStore_get h (kv s') k
                   = Inr (snd (flat_process_all (applied s') Map.empty) k)))"
    if n: "0 < n" and m: "0 < shardCount"
      and r: "run h sched (ThreadPool_new n (KVStore_new shardCount)
                (map Submit reqs @ [ShutdownPool])) = Next s'"
  proof -
    let ?p = "ThreadPool_new n (KVStore_new shardCount) (map Submit reqs @ [ShutdownPool])"
    have inv0: "draining h reqs ?p \<and> joined ?p \<and> fresh ?p"
      using draining_new [OF m, of h reqs n] joined_new [of n _ _] fresh_new [of n _ _]
      by blast
    from program_invariant_run [OF inv0 r]
    have dr: "draining h reqs s'" and j: "joined s'" and fr: "fresh s'" by blast+
    from work_run [OF r] have w: "length sched + work s' = 3 * length reqs + 2 * n + 2"
      by (simp add: work_new)
    have nr: "\<forall>t e. fire h t s' \<noteq> Raised e"
      using never_raised [OF dr fr] by blast
    have ns: "\<not> finished s' \<longrightarrow> (\<exists>t s''. fire h t s' = Next s'')"
      using never_stuck [OF dr j fr] by blast
    have fin: "mset (applied s') = mset reqs
           \<and> (\<forall>k. KVStore_get h (kv s') k
                   = Inr (snd (flat_process_all (applied s') Map.empty) k))"
      if f: "finished s'"
    proof -
      from run_workers_length [OF r] n have ne: "workers s' \<noteq> []"
        by (auto simp: ThreadPool_new_workers)
      from drained [OF dr j f ne] show ?thesis by blast
    qed
    show ?thesis
      apply (rule conjI, rule w)
      apply (rule conjI, rule nr)
      apply (rule conjI, rule ns)
      apply (rule impI, erule fin)
      done
  qed
  show ?thesis
    apply (rule conjI, intro impI, erule (1) a)
    apply (rule conjI, intro impI, erule (2) b)
    apply (rule conjI, intro impI, erule (2) c)
    apply (intro impI, erule (2) d)
    done
qed


theorem submit_accepts_witness:
  "caller_step empty_key_pool
     = Next (empty_key_pool
              \<lparr>queue := push \<lparr>rtype = SET, rkey = '''', rvalue = ''x''\<rparr> (queue empty_key_pool),
               todo := [Submit \<lparr>rtype = GET, rkey = '''', rvalue = ''''\<rparr>, ShutdownPool]\<rparr>)
   \<and> (\<exists>s1. run byte_sum [Main] empty_key_pool = Next s1
         \<and> workerLoop byte_sum 0 s1
             = Next (s1\<lparr>queue := (queue s1)\<lparr>q := []\<rparr>,
                       workers := set_status 0
                         (Processing \<lparr>rtype = SET, rkey = '''', rvalue = ''x''\<rparr>) (workers s1)\<rparr>))
   \<and> (\<exists>s2 st'. run byte_sum [Main, Worker 0] empty_key_pool = Next s2
         \<and> flat_of byte_sum st' '''' = Some ''x''
         \<and> workerLoop byte_sum 0 s2
             = Next (s2\<lparr>kv := st', workers := set_status 0 Running (workers s2),
                       applied := applied s2
                         @ [\<lparr>rtype = SET, rkey = '''', rvalue = ''x''\<rparr>]\<rparr>))
   \<and> (\<exists>s. run byte_sum empty_key_schedule empty_key_pool = Next s \<and> finished s
         \<and> length empty_key_schedule = 12
         \<and> applied s = empty_key_requests
         \<and> KVStore_get byte_sum (kv s) '''' = Inr (Some ''x''))"
proof -
  let ?r1 = "\<lparr>rtype = SET, rkey = '''', rvalue = ''x''\<rparr>"
  let ?r2 = "\<lparr>rtype = GET, rkey = '''', rvalue = ''''\<rparr>"
  have idle: "caller empty_key_pool = Idle"
    and td: "todo empty_key_pool = Submit ?r1 # [Submit ?r2, ShutdownPool]"
    by (simp_all add: empty_key_pool_def empty_key_requests_def ThreadPool_new_def)
  note a = submit_accepts [where s = empty_key_pool and req = ?r1
      and rest = "[Submit ?r2, ShutdownPool]",
      THEN conjunct1, THEN mp, THEN mp, OF idle td, THEN conjunct1]
  have "map_step (\<lambda>s. (length (workers s), status (workers s ! 0), q (queue s)))
          (run byte_sum [Main] empty_key_pool) = Next (2, Running, [?r1])"
    by code_simp
  from map_step_NextD [OF this]
  obtain s1 where r1: "run byte_sum [Main] empty_key_pool = Next s1"
    and o1: "(length (workers s1), status (workers s1 ! 0), q (queue s1)) = (2, Running, [?r1])"
    by blast
  from o1 have i1: "0 < length (workers s1)" and st1: "status (workers s1 ! 0) = Running"
    and q1: "q (queue s1) = ?r1 # []"
    by simp_all
  note b = submit_accepts [where s = s1 and i = 0 and req = ?r1 and xs = "[]" and h = byte_sum,
      THEN conjunct2, THEN conjunct1, THEN mp, THEN mp, THEN mp, OF i1 st1 q1]
  have "map_step (\<lambda>s. (length (workers s), status (workers s ! 0), length (shards (kv s))))
          (run byte_sum [Main, Worker 0] empty_key_pool) = Next (2, Processing ?r1, 4)"
    by code_simp
  from map_step_NextD [OF this]
  obtain s2 where r2: "run byte_sum [Main, Worker 0] empty_key_pool = Next s2"
    and o2: "(length (workers s2), status (workers s2 ! 0), length (shards (kv s2)))
               = (2, Processing ?r1, 4)"
    by blast
  from o2 have i2: "0 < length (workers s2)" and st2: "status (workers s2 ! 0) = Processing ?r1"
    and l2: "0 < length (shards (kv s2))"
    by simp_all
  from submit_accepts [where s = s2 and i = 0 and req = ?r1 and h = byte_sum,
      THEN conjunct2, THEN conjunct2, THEN conjunct1, THEN mp, THEN mp, THEN mp, OF i2 st2 l2]
  obtain st' where f: "flat_of byte_sum st' = snd (flat_process ?r1 (flat_of byte_sum (kv s2)))"
    and w: "workerLoop byte_sum 0 s2
             = Next (s2\<lparr>kv := st', workers := set_status 0 Running (workers s2),
                       applied := applied s2 @ [?r1]\<rparr>)"
    by blast
  from f have f': "flat_of byte_sum st' '''' = Some ''x''"
    by (simp add: flat_process_def)
  have c: "\<exists>s2 st'. run byte_sum [Main, Worker 0] empty_key_pool = Next s2
         \<and> flat_of byte_sum st' '''' = Some ''x''
         \<and> workerLoop byte_sum 0 s2
             = Next (s2\<lparr>kv := st', workers := set_status 0 Running (workers s2),
                       applied := applied s2 @ [?r1]\<rparr>)"
    using r2 f' w by blast
  have "map_step (\<lambda>s. (finished s, applied s))
          (run byte_sum empty_key_schedule empty_key_pool) = Next (True, empty_key_requests)"
    by code_simp
  from map_step_NextD [OF this]
  obtain s where r: "run byte_sum empty_key_schedule empty_key_pool = Next s"
    and o: "(finished s, applied s) = (True, empty_key_requests)"
    by blast
  from o have fi: "finished s" and ap: "applied s = empty_key_requests"
    by simp_all
  have n: "0 < (2::nat)" and m: "0 < (4::nat)" by simp_all
  note d = submit_accepts [where n = 2 and shardCount = 4 and h = byte_sum
      and reqs = empty_key_requests and sched = empty_key_schedule and s' = s,
      THEN conjunct2, THEN conjunct2, THEN conjunct2, THEN mp, THEN mp, THEN mp,
      OF n m r [unfolded empty_key_pool_def]]
  note g = d [THEN conjunct2, THEN conjunct2, THEN conjunct2, THEN mp, OF fi, THEN conjunct2,
      THEN spec, of "''''"]
  from g have g': "KVStore_get byte_sum (kv s) '''' = Inr (Some ''x'')"
    by (simp add: ap empty_key_requests_def flat_process_def)
  have len: "length empty_key_schedule = 12" by (simp add: empty_key_schedule_def)
  have e: "\<exists>s. run byte_sum empty_key_schedule empty_key_pool = Next s \<and> finished s
         \<and> length empty_key_schedule = 12
         \<and> applied s = empty_key_requests
         \<and> KVStore_get byte_sum (kv s) '''' = Inr (Some ''x'')"
    using r fi len ap g' by blast
  have b': "\<exists>s1. run byte_sum [Main] empty_key_pool = Next s1
         \<and> workerLoop byte_sum 0 s1
             = Next (s1\<lparr>queue := (queue s1)\<lparr>q := []\<rparr>,
                       workers := set_status 0 (Processing ?r1) (workers s1)\<rparr>)"
    using r1 b by blast
  show ?thesis
    apply (rule conjI, rule a)
    apply (rule conjI, rule b')
    apply (rule conjI, rule c)
    apply (rule e)
    done
qed

theorem submit_accepts_counterexample:
  "map_step applied
     (run byte_sum [Main, Worker 0, Worker 0]
        (ThreadPool_new 2 (KVStore_new 4) [Submit \<lparr>rtype = GET, rkey = '''', rvalue = ''''\<rparr>]))
     = Next [\<lparr>rtype = GET, rkey = '''', rvalue = ''''\<rparr>]
   \<and> map_step (final_get byte_sum '''')
     (run byte_sum [Main, Worker 0, Worker 0]
        (ThreadPool_new 2 (KVStore_new 4) [Submit \<lparr>rtype = SET, rkey = '''', rvalue = ''x''\<rparr>]))
     = Next (Inr (Some ''x''))"
  by code_simp

text \<open>Once every worker is terminated, the store and the history stay as they are.\<close>

lemma idle_pool_fire:
  assumes all: "\<forall>w \<in> set (workers s). status w = Terminated"
    and step: "fire h t s = Next s'"
  shows "(\<forall>w \<in> set (workers s'). status w = Terminated)
         \<and> kv s' = kv s \<and> applied s' = applied s
         \<and> prefix (q (queue s)) (q (queue s'))"
proof (cases t)
  case Main
  with step have "caller_step s = Next s'" by simp
  then show ?thesis
  proof (cases rule: caller_stepE)
    case (Submit req rest)
    with all show ?thesis by (simp add: push_def)
  next
    case (Shutdown rest)
    with all show ?thesis by (simp add: shutdown_def)
  next
    case (Join i)
    have "status w = Terminated"
      if "w \<in> set ((workers s)[i := (workers s ! i)\<lparr>joinable := False\<rparr>])" for w
    proof -
      from that have "w = (workers s ! i)\<lparr>joinable := False\<rparr> \<or> w \<in> set (workers s)"
        using set_update_subset_insert [of "workers s" i "(workers s ! i)\<lparr>joinable := False\<rparr>"]
        by auto
      with all Join(4) show ?thesis by auto
    qed
    with Join(5) show ?thesis by simp
  next
    case (Return i)
    with all show ?thesis by simp
  qed
next
  case (Worker i)
  with step have w: "workerLoop h i s = Next s'" by simp
  have "i < length (workers s)" and "status (workers s ! i) \<noteq> Terminated"
    using w by (cases rule: workerLoopE; simp)+
  with all nth_mem [of i "workers s"] have False by blast
  then show ?thesis ..
qed

lemma idle_pool_run:
  "\<forall>w \<in> set (workers s). status w = Terminated \<Longrightarrow> run h ts s = Next s' \<Longrightarrow>
   (\<forall>w \<in> set (workers s'). status w = Terminated)
   \<and> kv s' = kv s \<and> applied s' = applied s
   \<and> prefix (q (queue s)) (q (queue s'))"
proof (induction ts arbitrary: s)
  case Nil
  then show ?case by simp
next
  case (Cons t ts)
  from Cons.prems(2) obtain s1 where f: "fire h t s = Next s1" and r: "run h ts s1 = Next s'"
    by (auto split: step.splits)
  from idle_pool_fire [OF Cons.prems(1) f]
  have a1: "\<forall>w \<in> set (workers s1). status w = Terminated"
    and k1: "kv s1 = kv s" and p1: "applied s1 = applied s"
    and q1: "prefix (q (queue s)) (q (queue s1))" by blast+
  from Cons.IH [OF a1 r]
  have a2: "\<forall>w \<in> set (workers s'). status w = Terminated"
    and k2: "kv s' = kv s1" and p2: "applied s' = applied s1"
    and q2: "prefix (q (queue s1)) (q (queue s'))" by blast+
  from q1 q2 have "prefix (q (queue s)) (q (queue s'))" by (rule prefix_order.trans)
  with a2 k1 k2 p1 p2 show ?case by simp
qed

text \<open>
  C8 (submission after shutdown). When \<^verbatim>\<open>shutdown()\<close> has returned, a call of
  \<^verbatim>\<open>submit\<close> is one transition that appends the request to the queue: it raises
  nothing and does not wait. Every worker is terminated by then, so whatever happens
  afterwards the request stays in the queue and the store and the history of applied
  requests never change.
\<close>

theorem submit_after_shutdown:
  "run h sched (ThreadPool_new n st calls) = Next s \<Longrightarrow>
   stopped (queue s) \<Longrightarrow> caller s = Idle \<Longrightarrow> todo s = Submit req # rest \<Longrightarrow>
   caller_step s = Next (s\<lparr>queue := push req (queue s), todo := rest\<rparr>)
   \<and> (\<forall>w \<in> set (workers s). status w = Terminated)
   \<and> (\<forall>sched' s'.
         run h sched' (s\<lparr>queue := push req (queue s), todo := rest\<rparr>) = Next s' \<longrightarrow>
         req \<in> set (q (queue s')) \<and> kv s' = kv s \<and> applied s' = applied s
         \<and> (\<forall>w \<in> set (workers s'). status w = Terminated))"
proof -
  assume r: "run h sched (ThreadPool_new n st calls) = Next s"
    and st: "stopped (queue s)" and idle: "caller s = Idle"
    and td: "todo s = Submit req # rest"
  let ?s = "s\<lparr>queue := push req (queue s), todo := rest\<rparr>"
  from joined_run [OF joined_new r] have j: "joined s" .
  from j st idle have all: "\<forall>w \<in> set (workers s). status w = Terminated"
    by (simp add: joined_def)
  have a: "caller_step s = Next ?s"
    using idle td by (simp add: caller_step_def)
  have c: "req \<in> set (q (queue s')) \<and> kv s' = kv s \<and> applied s' = applied s
         \<and> (\<forall>w \<in> set (workers s'). status w = Terminated)"
    if r': "run h sched' ?s = Next s'" for sched' s'
  proof -
    have all': "\<forall>w \<in> set (workers ?s). status w = Terminated" using all by simp
    from idle_pool_run [OF all' r']
    have a2: "\<forall>w \<in> set (workers s'). status w = Terminated"
      and k: "kv s' = kv ?s" and p: "applied s' = applied ?s"
      and pre: "prefix (q (queue ?s)) (q (queue s'))" by blast+
    have "req \<in> set (q (queue ?s))" by (simp add: push_def)
    with pre have "req \<in> set (q (queue s'))" using set_mono_prefix by blast
    with a2 k p show ?thesis by simp
  qed
  show ?thesis
    apply (rule conjI, rule a)
    apply (rule conjI, rule all)
    apply (intro allI impI)
    apply (erule c)
    done
qed

theorem submit_after_shutdown_witness:
  "\<exists>s. run byte_sum [Main, Worker 0, Worker 1, Main, Main, Main]
          (ThreadPool_new 2 (KVStore_new 4)
             [ShutdownPool, Submit \<lparr>rtype = SET, rkey = ''a'', rvalue = ''1''\<rparr>]) = Next s
      \<and> applied s = []
      \<and> caller_step s
          = Next (s\<lparr>queue := push \<lparr>rtype = SET, rkey = ''a'', rvalue = ''1''\<rparr> (queue s),
                    todo := []\<rparr>)
      \<and> \<lparr>rtype = SET, rkey = ''a'', rvalue = ''1''\<rparr>
            \<in> set (q (push \<lparr>rtype = SET, rkey = ''a'', rvalue = ''1''\<rparr> (queue s)))"
proof -
  let ?req = "\<lparr>rtype = SET, rkey = ''a'', rvalue = ''1''\<rparr>"
  let ?p = "ThreadPool_new 2 (KVStore_new 4) [ShutdownPool, Submit ?req]"
  let ?ts = "[Main, Worker 0, Worker 1, Main, Main, Main]"
  have "map_step (\<lambda>s. (stopped (queue s), caller s, todo s, applied s)) (run byte_sum ?ts ?p)
          = Next (True, Idle, [Submit ?req], [])"
    by code_simp
  from map_step_NextD [OF this]
  obtain s where r: "run byte_sum ?ts ?p = Next s" and st: "stopped (queue s)"
    and idle: "caller s = Idle" and td: "todo s = [Submit ?req]" and ap: "applied s = []"
    by auto
  note t = submit_after_shutdown [OF r st idle td]
  note a = t [THEN conjunct1]
  note later = t [THEN conjunct2, THEN conjunct2, THEN spec, THEN spec, THEN mp]
  have "run byte_sum [] (s\<lparr>queue := push ?req (queue s), todo := []\<rparr>)
          = Next (s\<lparr>queue := push ?req (queue s), todo := []\<rparr>)" by simp
  from later [OF this] have m: "?req \<in> set (q (push ?req (queue s)))" by simp
  show ?thesis
    apply (rule exI [of _ s])
    apply (rule conjI, rule r)
    apply (rule conjI, rule ap)
    apply (rule conjI, rule a)
    apply (rule m)
    done
qed

theorem submit_after_shutdown_counterexample:
  "map_step finished
     (run byte_sum [Main, Worker 0, Worker 1, Main, Main, Main, Main]
        (ThreadPool_new 2 (KVStore_new 4)
           [ShutdownPool, Submit \<lparr>rtype = SET, rkey = ''a'', rvalue = ''1''\<rparr>])) = Next True
   \<and> map_step queue
     (run byte_sum [Main, Worker 0, Worker 1, Main, Main, Main, Main]
        (ThreadPool_new 2 (KVStore_new 4)
           [ShutdownPool, Submit \<lparr>rtype = SET, rkey = ''a'', rvalue = ''1''\<rparr>]))
       = Next \<lparr>q = [\<lparr>rtype = SET, rkey = ''a'', rvalue = ''1''\<rparr>], stopped = True\<rparr>
   \<and> map_step applied
     (run byte_sum [Main, Worker 0, Worker 1, Main, Main, Main, Main]
        (ThreadPool_new 2 (KVStore_new 4)
           [ShutdownPool, Submit \<lparr>rtype = SET, rkey = ''a'', rvalue = ''1''\<rparr>])) = Next []
   \<and> map_step (final_get byte_sum ''a'')
     (run byte_sum [Main, Worker 0, Worker 1, Main, Main, Main, Main]
        (ThreadPool_new 2 (KVStore_new 4)
           [ShutdownPool, Submit \<lparr>rtype = SET, rkey = ''a'', rvalue = ''1''\<rparr>])) = Next (Inr None)"
  by code_simp

end
